theory Spec2Isabelle
  imports Complex_Main
begin

section \<open>The computation graph built by \<open>ufcnn.py\<close>\<close>

text \<open>
  The Python module only declares a TensorFlow graph; the numbers are computed later,
  when the graph is run on fed inputs. The model keeps the two apart in the same way:
  \<open>construct_ufcnn\<close> returns graph nodes, and \<open>eval\<close> (further down) runs
  a node on a feed and on the current values of the variables.

  Creating a variable or a placeholder adds a new, distinct object to the graph. The
  model threads a counter through the construction and gives every variable and
  placeholder the value of the counter at its creation as its identity.
\<close>

datatype variable = Variable (var_id: nat) (var_shape: "int list") (var_seed: "int option")

datatype node =
    Placeholder nat "int option list"
  | Read variable
  | ExpandDims node int
  | Pad node "(int \<times> int) list"
  | Conv2D node node
  | AtrousConv2D node node int
  | Add node node
  | Relu node
  | Concat int "node list"
  | Squeeze node "int list"

text \<open>
  \<open>Conv2D x w\<close> is \<open>tf.nn.conv2d(x, w, [1, 1, 1, 1], padding='VALID')\<close> and
  \<open>AtrousConv2D x w rate\<close> is \<open>tf.nn.atrous_conv2d(x, w, rate, padding='VALID')\<close>:
  the module calls them with these strides and this padding mode only.
  \<open>Concat axis xs\<close> is \<open>tf.concat(axis, xs)\<close>, with the axis first as in the
  TensorFlow release the module is written for.
\<close>

definition init_normal :: "int list \<Rightarrow> int option \<Rightarrow> nat \<Rightarrow> variable \<times> nat" where
  "init_normal shp seed g = (Variable g shp seed, Suc g)"

definition conv :: "node \<Rightarrow> node \<Rightarrow> node \<Rightarrow> int \<Rightarrow> int \<Rightarrow> node" where
  "conv x w b flen dilation =
     (let padding = [(0, 0), (0, 0), (dilation * (flen - 1), 0), (0, 0)];
          x = Pad x padding;
          x = (if dilation = 1 then Conv2D x w else AtrousConv2D x w dilation)
      in Add x b)"

record params =
  n_inputs :: int
  n_outputs :: int
  n_levels :: int
  n_filters :: int
  filter_length :: int
  random_seed :: "int option"

definition default_params :: params where
  "default_params =
     \<lparr>n_inputs = 1, n_outputs = 1, n_levels = 1, n_filters = 10, filter_length = 5,
      random_seed = Some 0\<rparr>"

text \<open>Python's \<open>range(n)\<close>: empty when \<open>n \<le> 0\<close>.\<close>

definition range_py :: "int \<Rightarrow> int list" where
  "range_py n = map int [0..<nat n]"

subsection \<open>The first loop: the variables of every level\<close>

record var_state =
  H_weights :: "variable list"
  H_biases :: "variable list"
  G_weights :: "variable list"
  G_biases :: "variable list"
  next_id :: nat

definition level_variables :: "params \<Rightarrow> var_state \<Rightarrow> int \<Rightarrow> var_state" where
  "level_variables p s level =
     (let (hw, g) = init_normal
            (if level = 0 then [1, filter_length p, n_inputs p, n_filters p]
             else [1, filter_length p, n_filters p, n_filters p])
            (random_seed p) (next_id s);
          (hb, g) = init_normal [n_filters p] (random_seed p) g;
          (gw, g) = init_normal
            (if level = n_levels p - 1 then [1, filter_length p, n_filters p, n_filters p]
             else [1, filter_length p, 2 * n_filters p, n_filters p])
            (random_seed p) g;
          (gb, g) = init_normal [n_filters p] (random_seed p) g
      in \<lparr>H_weights = H_weights s @ [hw], H_biases = H_biases s @ [hb],
          G_weights = G_weights s @ [gw], G_biases = G_biases s @ [gb], next_id = g\<rparr>)"

definition all_variables :: "params \<Rightarrow> var_state" where
  "all_variables p =
     foldl (level_variables p)
       \<lparr>H_weights = [], H_biases = [], G_weights = [], G_biases = [], next_id = 0\<rparr>
       (range_py (n_levels p))"

subsection \<open>The second and third loop: the layers\<close>

fun H_loop ::
  "int \<Rightarrow> (variable \<times> variable) list \<Rightarrow> node \<times> node list \<times> int \<Rightarrow> node \<times> node list \<times> int"
where
  "H_loop flen [] s = s"
| "H_loop flen ((w, b) # wbs) (x, H_outputs, dilation) =
     (let x = Relu (conv x (Read w) (Read b) flen dilation)
      in H_loop flen wbs (x, H_outputs @ [x], dilation * 2))"

text \<open>
  In the third loop the loop variable \<open>x\<close> is bound to the analysis output of the
  level; what \<open>x\<close> held before the iteration is overwritten.
\<close>

fun G_loop ::
  "int \<Rightarrow> (node \<times> variable \<times> variable) list \<Rightarrow> node \<times> node option \<times> int
     \<Rightarrow> node \<times> node option \<times> int"
where
  "G_loop flen [] s = s"
| "G_loop flen ((x, w, b) # rest) (x_old, x_prev, dilation) =
     (let x = (case x_prev of None \<Rightarrow> x | Some xp \<Rightarrow> Concat 3 [xp, x]);
          x = Relu (conv x (Read w) (Read b) flen dilation)
      in G_loop flen rest (x, Some x, dilation div 2))"

record network =
  x_in :: node
  y_hat :: node
  y :: node
  weights :: "variable list"
  biases :: "variable list"

definition analysis :: "params \<Rightarrow> node \<Rightarrow> node \<times> node list \<times> int" where
  "analysis p x =
     H_loop (filter_length p)
       (zip (H_weights (all_variables p)) (H_biases (all_variables p))) (x, [], 1)"

definition synthesis :: "params \<Rightarrow> node \<times> node list \<times> int \<Rightarrow> node \<times> node option \<times> int" where
  "synthesis p a =
     (case a of (x, H_outputs, dilation) \<Rightarrow>
        G_loop (filter_length p)
          (zip (rev H_outputs)
             (zip (rev (G_weights (all_variables p))) (rev (G_biases (all_variables p)))))
          (x, None, dilation))"

definition construct_ufcnn :: "params \<Rightarrow> network" where
  "construct_ufcnn p =
     (let s = all_variables p;
          g = next_id s;
          x_in = Placeholder g [None, None, Some (n_inputs p)];
          g = Suc g;
          x = ExpandDims x_in 1;
          (x, x_prev, dilation) = synthesis p (analysis p x);
          (C_weights, g) =
             init_normal [1, filter_length p, n_filters p, n_outputs p] (random_seed p) g;
          (C_biases, g) = init_normal [n_outputs p] (random_seed p) g;
          y_hat = conv x (Read C_weights) (Read C_biases) (filter_length p) 1;
          y_hat = Squeeze y_hat [1];
          y = Placeholder g [None, None, Some (n_outputs p)]
      in \<lparr>x_in = x_in, y_hat = y_hat, y = y,
          weights = H_weights s @ G_weights s @ [C_weights],
          biases = H_biases s @ G_biases s @ [C_biases]\<rparr>)"

subsection \<open>The architecture in closed form\<close>

text \<open>
  The loops above create four variables per level and then the final two; the layers
  they build are described level by level by \<open>H_layer\<close> and
  \<open>G_layer\<close>. That the loops build exactly these nodes is proved below
  (\<open>construct_ufcnn_eq\<close>).
\<close>

definition H_weight :: "params \<Rightarrow> nat \<Rightarrow> variable" where
  "H_weight p l =
     Variable (4 * l)
       (if l = 0 then [1, filter_length p, n_inputs p, n_filters p]
        else [1, filter_length p, n_filters p, n_filters p])
       (random_seed p)"

definition H_bias :: "params \<Rightarrow> nat \<Rightarrow> variable" where
  "H_bias p l = Variable (4 * l + 1) [n_filters p] (random_seed p)"

definition G_weight :: "params \<Rightarrow> nat \<Rightarrow> variable" where
  "G_weight p l =
     Variable (4 * l + 2)
       (if int l = n_levels p - 1 then [1, filter_length p, n_filters p, n_filters p]
        else [1, filter_length p, 2 * n_filters p, n_filters p])
       (random_seed p)"

definition G_bias :: "params \<Rightarrow> nat \<Rightarrow> variable" where
  "G_bias p l = Variable (4 * l + 3) [n_filters p] (random_seed p)"

fun H_layer :: "params \<Rightarrow> node \<Rightarrow> nat \<Rightarrow> node" where
  "H_layer p x0 0 =
     Relu (conv x0 (Read (H_weight p 0)) (Read (H_bias p 0)) (filter_length p) 1)"
| "H_layer p x0 (Suc l) =
     Relu (conv (H_layer p x0 l) (Read (H_weight p (Suc l))) (Read (H_bias p (Suc l)))
       (filter_length p) (2 ^ Suc l))"

function G_layer :: "params \<Rightarrow> node \<Rightarrow> nat \<Rightarrow> node" where
  "G_layer p x0 l =
     Relu (conv
       (if Suc l < nat (n_levels p) then Concat 3 [G_layer p x0 (Suc l), H_layer p x0 l]
        else H_layer p x0 l)
       (Read (G_weight p l)) (Read (G_bias p l)) (filter_length p) (2 ^ Suc l))"
  by pat_completeness auto

termination
  by (relation "measure (\<lambda>(p, x0, l). nat (n_levels p) - l)") auto

declare G_layer.simps [simp del]

definition C_weight :: "params \<Rightarrow> variable" where
  "C_weight p =
     Variable (4 * nat (n_levels p) + 1)
       [1, filter_length p, n_filters p, n_outputs p] (random_seed p)"

definition C_bias :: "params \<Rightarrow> variable" where
  "C_bias p = Variable (4 * nat (n_levels p) + 2) [n_outputs p] (random_seed p)"

definition input_node :: "params \<Rightarrow> node" where
  "input_node p = Placeholder (4 * nat (n_levels p)) [None, None, Some (n_inputs p)]"

definition last_layer :: "params \<Rightarrow> node" where
  "last_layer p =
     (if nat (n_levels p) = 0 then ExpandDims (input_node p) 1
      else G_layer p (ExpandDims (input_node p) 1) 0)"

text \<open>
  The dilation of the convolution a layer applies can be read off the layer's node: the
  node is the ReLU of a \<open>conv\<close>, whose convolution is \<open>Conv2D\<close> for dilation
  1 and \<open>AtrousConv2D\<close> with the dilation as rate otherwise.
\<close>

fun layer_dilation :: "node \<Rightarrow> int option" where
  "layer_dilation (Relu (Add (Conv2D (Pad x paddings) w) b)) = Some 1"
| "layer_dilation (Relu (Add (AtrousConv2D (Pad x paddings) w rate) b)) = Some rate"
| "layer_dilation _ = None"

text \<open>
  Two names for what the source holds in local variables: the input with its added
  height axis, \<open>x = tf.expand_dims(x_in, 1)\<close>, and the list \<open>H_outputs\<close> after
  the second loop.
\<close>

definition expanded_input :: "params \<Rightarrow> node" where
  "expanded_input p = ExpandDims (x_in (construct_ufcnn p)) 1"

definition analysis_outputs :: "params \<Rightarrow> node list" where
  "analysis_outputs p = fst (snd (analysis p (expanded_input p)))"

section \<open>Tensors and the operations of the tensor library\<close>

text \<open>
  The module leaves all computing to TensorFlow. The operations it calls are modelled
  here after their documentation, on tensors given by their shape and their entries in
  row-major order. An operation that TensorFlow refuses (a shape mismatch, a negative
  padding, squeezing an axis whose size is not 1) returns an error value.

  The entries are of any type with a zero, an addition, a multiplication and an order:
  nothing below depends on laws of arithmetic that floating-point numbers break.
\<close>

record 'a tensor =
  shape :: "nat list"
  elems :: "'a list"

fun offset :: "nat list \<Rightarrow> nat list \<Rightarrow> nat" where
  "offset (n # ns) (i # js) = i * prod_list ns + offset ns js"
| "offset _ _ = 0"

definition elem_at :: "'a tensor \<Rightarrow> nat list \<Rightarrow> 'a" where
  "elem_at x idx = elems x ! offset (shape x) idx"

definition indices :: "nat list \<Rightarrow> nat list list" where
  "indices shp = List.product_lists (map (\<lambda>n. [0..<n]) shp)"

definition build :: "nat list \<Rightarrow> (nat list \<Rightarrow> 'a) \<Rightarrow> 'a tensor" where
  "build shp f = \<lparr>shape = shp, elems = map f (indices shp)\<rparr>"

definition valid_index :: "nat list \<Rightarrow> nat list \<Rightarrow> bool" where
  "valid_index shp idx = list_all2 (<) idx shp"

definition wf :: "'a tensor \<Rightarrow> bool" where
  "wf x = (length (elems x) = prod_list (shape x))"

datatype error =
    NotFed nat
  | FeedError
  | VariableError
  | ExpandDimsError
  | PadError
  | ConvError
  | AddError
  | ConcatError
  | SqueezeError
  | ReshapeError
  | SliceError
  | SoftmaxError
  | NotANumber

definition and_then :: "error + 'a \<Rightarrow> ('a \<Rightarrow> error + 'b) \<Rightarrow> error + 'b" where
  "and_then r f = (case r of Inl e \<Rightarrow> Inl e | Inr v \<Rightarrow> f v)"

fun all_results :: "(error + 'a) list \<Rightarrow> error + 'a list" where
  "all_results [] = Inr []"
| "all_results (r # rs) =
     and_then r (\<lambda>v. and_then (all_results rs) (\<lambda>vs. Inr (v # vs)))"

text \<open>Sums are taken term by term from the right; no law of addition is used.\<close>

definition sum_of :: "'a::{zero,plus} list \<Rightarrow> 'a" where
  "sum_of xs = foldr (+) xs 0"

text \<open>\<open>tf.expand_dims(x, dim)\<close>: a new axis of size 1 at position \<open>dim\<close>.\<close>

definition tf_expand_dims :: "int \<Rightarrow> 'a tensor \<Rightarrow> error + 'a tensor" where
  "tf_expand_dims ax x =
     (let r = int (length (shape x));
          k = (if ax < 0 then ax + r + 1 else ax)
      in if 0 \<le> k \<and> k \<le> r
         then Inr (x\<lparr>shape := take (nat k) (shape x) @ [1] @ drop (nat k) (shape x)\<rparr>)
         else Inl ExpandDimsError)"

text \<open>
  \<open>tf.pad(x, paddings)\<close>: on every axis, the given numbers of zeros before and after
  the entries of \<open>x\<close>.
\<close>

definition tf_pad :: "(int \<times> int) list \<Rightarrow> 'a::zero tensor \<Rightarrow> error + 'a tensor" where
  "tf_pad paddings x =
     (if length paddings = length (shape x) \<and> list_all (\<lambda>(a, b). 0 \<le> a \<and> 0 \<le> b) paddings
      then Inr (build (map2 (\<lambda>(a, b) n. nat a + n + nat b) paddings (shape x))
             (\<lambda>idx.
                if list_all2 (\<lambda>i ((a, b), n). nat a \<le> i \<and> i < nat a + n) idx
                     (zip paddings (shape x))
                then elem_at x (map2 (\<lambda>i (a, b). i - nat a) idx paddings)
                else 0))
      else Inl PadError)"

text \<open>
  A two-dimensional convolution with stride 1 and padding \<open>VALID\<close>, whose filter taps
  are \<open>rate\<close> entries apart:
  \<open>out[b, i, j, k] = sum over di, dj, q of x[b, i + rate * di, j + rate * dj, q] * w[di, dj, q, k]\<close>.
  \<open>tf.nn.conv2d\<close> is the case \<open>rate = 1\<close>; \<open>tf.nn.atrous_conv2d\<close> refuses a
  rate below 1.
\<close>

definition valid_conv ::
  "nat \<Rightarrow> 'a::{zero,plus,times} tensor \<Rightarrow> 'a tensor \<Rightarrow> error + 'a tensor"
where
  "valid_conv rate x w =
     (let sx = shape x; sw = shape w
      in if length sx = 4 \<and> length sw = 4 \<and> sx ! 3 = sw ! 2 \<and> 0 < sw ! 0 \<and> 0 < sw ! 1 \<and>
            rate * (sw ! 0 - 1) \<le> sx ! 1 \<and> rate * (sw ! 1 - 1) \<le> sx ! 2
         then Inr (build
                [sx ! 0, sx ! 1 - rate * (sw ! 0 - 1), sx ! 2 - rate * (sw ! 1 - 1), sw ! 3]
                (\<lambda>idx. sum_of
                   (map (\<lambda>(di, dj, q).
                           elem_at x [idx ! 0, idx ! 1 + rate * di, idx ! 2 + rate * dj, q] *
                           elem_at w [di, dj, q, idx ! 3])
                      (List.product [0..<sw ! 0] (List.product [0..<sw ! 1] [0..<sw ! 2])))))
         else Inl ConvError)"

definition conv2d :: "'a::{zero,plus,times} tensor \<Rightarrow> 'a tensor \<Rightarrow> error + 'a tensor" where
  "conv2d x w = valid_conv 1 x w"

definition atrous_conv2d ::
  "'a::{zero,plus,times} tensor \<Rightarrow> 'a tensor \<Rightarrow> int \<Rightarrow> error + 'a tensor"
where
  "atrous_conv2d x w rate = (if rate < 1 then Inl ConvError else valid_conv (nat rate) x w)"

text \<open>
  \<open>a + b\<close> with broadcasting: the shapes are aligned at the last axis, and an axis of
  size 1 (or a missing axis) is repeated along the other tensor's axis.
\<close>

fun broadcast_dims :: "nat list \<Rightarrow> nat list \<Rightarrow> nat list option" where
  "broadcast_dims [] ns = Some ns"
| "broadcast_dims (m # ms) [] = Some (m # ms)"
| "broadcast_dims (m # ms) (n # ns) =
     (if m = n \<or> n = 1 then map_option ((#) m) (broadcast_dims ms ns)
      else if m = 1 then map_option ((#) n) (broadcast_dims ms ns)
      else None)"

definition broadcast_shape :: "nat list \<Rightarrow> nat list \<Rightarrow> nat list option" where
  "broadcast_shape a b = map_option rev (broadcast_dims (rev a) (rev b))"

definition project :: "nat list \<Rightarrow> nat list \<Rightarrow> nat list" where
  "project shp idx =
     map2 (\<lambda>n i. if n = 1 then 0 else i) shp (drop (length idx - length shp) idx)"

definition tf_add :: "'a::plus tensor \<Rightarrow> 'a tensor \<Rightarrow> error + 'a tensor" where
  "tf_add a b =
     (case broadcast_shape (shape a) (shape b) of
        None \<Rightarrow> Inl AddError
      | Some shp \<Rightarrow>
          Inr (build shp
            (\<lambda>idx. elem_at a (project (shape a) idx) + elem_at b (project (shape b) idx))))"

text \<open>\<open>tf.nn.relu(x)\<close> is \<open>max(x, 0)\<close>, entry by entry.\<close>

definition tf_relu :: "'a::{zero,ord} tensor \<Rightarrow> 'a tensor" where
  "tf_relu x = x\<lparr>elems := map (\<lambda>v. max v 0) (elems x)\<rparr>"

text \<open>
  \<open>tf.concat(axis, xs)\<close>: the tensors one after the other along \<open>axis\<close>; they must
  have the same sizes on every other axis.
\<close>

definition concat2 :: "nat \<Rightarrow> 'a tensor \<Rightarrow> 'a tensor \<Rightarrow> error + 'a tensor" where
  "concat2 ax a b =
     (if length (shape a) = length (shape b) \<and> ax < length (shape a) \<and>
         (shape a)[ax := 0] = (shape b)[ax := 0]
      then Inr (build ((shape a)[ax := shape a ! ax + shape b ! ax])
             (\<lambda>idx. if idx ! ax < shape a ! ax then elem_at a idx
                    else elem_at b (idx[ax := idx ! ax - shape a ! ax])))
      else Inl ConcatError)"

fun tf_concat :: "int \<Rightarrow> 'a tensor list \<Rightarrow> error + 'a tensor" where
  "tf_concat ax [] = Inl ConcatError"
| "tf_concat ax [a] =
     (if 0 \<le> ax \<and> nat ax < length (shape a) then Inr a else Inl ConcatError)"
| "tf_concat ax (a # b # ts) =
     (if ax < 0 then Inl ConcatError
      else and_then (concat2 (nat ax) a b) (\<lambda>c. tf_concat ax (c # ts)))"

text \<open>
  \<open>tf.squeeze(x, axes)\<close>: removes the listed axes, each of which must have size 1
  (all axes of size 1 when none is listed).
\<close>

definition tf_squeeze :: "int list \<Rightarrow> 'a tensor \<Rightarrow> error + 'a tensor" where
  "tf_squeeze axes x =
     (if axes = [] then Inr (x\<lparr>shape := filter (\<lambda>n. n \<noteq> 1) (shape x)\<rparr>)
      else if list_all (\<lambda>a. 0 \<le> a \<and> nat a < length (shape x) \<and> shape x ! nat a = 1) axes
      then Inr (x\<lparr>shape :=
             map fst (filter (\<lambda>(n, k). int k \<notin> set axes)
               (zip (shape x) [0..<length (shape x)]))\<rparr>)
      else Inl SqueezeError)"

section \<open>Running the graph\<close>

text \<open>
  A run is given the fed value of placeholders and the current value of every
  variable, by identity. A placeholder accepts a tensor that fits its declared shape,
  where \<open>None\<close> stands for any size; a variable holds a tensor of its declared shape.
\<close>

record 'a env =
  feed :: "nat \<Rightarrow> 'a tensor option"
  var_value :: "nat \<Rightarrow> 'a tensor"

definition feedable :: "int option list \<Rightarrow> nat list \<Rightarrow> bool" where
  "feedable pshape shp =
     list_all2 (\<lambda>d n. case d of None \<Rightarrow> True | Some k \<Rightarrow> k = int n) pshape shp"

fun eval :: "'a::{zero,plus,times,ord} env \<Rightarrow> node \<Rightarrow> error + 'a tensor" where
  "eval e (Placeholder i pshape) =
     (case feed e i of
        None \<Rightarrow> Inl (NotFed i)
      | Some t \<Rightarrow> if feedable pshape (shape t) \<and> wf t then Inr t else Inl FeedError)"
| "eval e (Read v) =
     (let t = var_value e (var_id v)
      in if map int (shape t) = var_shape v \<and> wf t then Inr t else Inl VariableError)"
| "eval e (ExpandDims x ax) = and_then (eval e x) (tf_expand_dims ax)"
| "eval e (Pad x paddings) = and_then (eval e x) (tf_pad paddings)"
| "eval e (Conv2D x w) =
     and_then (eval e x) (\<lambda>xv. and_then (eval e w) (\<lambda>wv. conv2d xv wv))"
| "eval e (AtrousConv2D x w rate) =
     and_then (eval e x) (\<lambda>xv. and_then (eval e w) (\<lambda>wv. atrous_conv2d xv wv rate))"
| "eval e (Add x b) = and_then (eval e x) (\<lambda>xv. and_then (eval e b) (\<lambda>bv. tf_add xv bv))"
| "eval e (Relu x) = and_then (eval e x) (\<lambda>xv. Inr (tf_relu xv))"
| "eval e (Concat ax xs) = and_then (all_results (map (eval e) xs)) (tf_concat ax)"
| "eval e (Squeeze x axes) = and_then (eval e x) (tf_squeeze axes)"

text \<open>
  The prediction of the network: \<open>y_hat\<close> run with \<open>x\<close> fed to \<open>x_in\<close>, nothing
  else fed, and the variables at the values \<open>vars\<close>.
\<close>

definition feed_env :: "nat \<Rightarrow> 'a tensor \<Rightarrow> (nat \<Rightarrow> 'a tensor) \<Rightarrow> 'a env" where
  "feed_env i x vars = \<lparr>feed = (\<lambda>j. if j = i then Some x else None), var_value = vars\<rparr>"

definition predict ::
  "params \<Rightarrow> (nat \<Rightarrow> 'a tensor) \<Rightarrow> 'a::{zero,plus,times,ord} tensor \<Rightarrow> error + 'a tensor"
where
  "predict p vars x =
     (case x_in (construct_ufcnn p) of
        Placeholder i pshape \<Rightarrow> eval (feed_env i x vars) (y_hat (construct_ufcnn p))
      | _ \<Rightarrow> Inl FeedError)"

section \<open>The causal dilated convolution, pointwise\<close>

text \<open>
  What a call of \<open>conv\<close> is meant to compute, for an activation \<open>x\<close> of shape
  (batch, height, time, channels), a filter \<open>w\<close> of shape (1, length, channels,
  outputs), a bias \<open>b\<close> and taps \<open>rate\<close> entries apart: the entry of the output at
  time \<open>t\<close> is the sum of the filter taps applied to the entries of \<open>x\<close> at the
  times \<open>t - rate * (length - 1 - dj)\<close>, where a time before the first one reads as
  zero, plus the bias of the output channel.
\<close>

definition causal_conv ::
  "nat \<Rightarrow> 'a::{zero,plus,times} tensor \<Rightarrow> 'a tensor \<Rightarrow> 'a tensor \<Rightarrow> 'a tensor"
where
  "causal_conv rate x w b =
     build [shape x ! 0, shape x ! 1, shape x ! 2, shape w ! 3]
       (\<lambda>idx. sum_of
          (map (\<lambda>(di, dj, q).
                  (if idx ! 2 + rate * dj < rate * (shape w ! 1 - 1) then 0
                   else elem_at x
                          [idx ! 0, idx ! 1, idx ! 2 + rate * dj - rate * (shape w ! 1 - 1), q]) *
                  elem_at w [di, dj, q, idx ! 3])
             (List.product [0..<1] (List.product [0..<shape w ! 1] [0..<shape w ! 2]))) +
          elem_at b [idx ! 3])"

text \<open>
  Two tensors of the same shape agree up to position \<open>t\<close> of an axis when their entries
  are equal at every index whose component on that axis is at most \<open>t\<close>.
\<close>

definition agree_upto :: "nat \<Rightarrow> nat \<Rightarrow> 'a tensor \<Rightarrow> 'a tensor \<Rightarrow> bool" where
  "agree_upto ax t u v =
     (shape u = shape v \<and>
      list_all (\<lambda>idx. t < idx ! ax \<or> elem_at u idx = elem_at v idx) (indices (shape u)))"

text \<open>
  The invariant of two runs of a node: when both return, both results are well formed,
  have the shape (batch, 1, time, channels) and agree up to time \<open>t\<close>.
\<close>

definition related ::
  "nat \<Rightarrow> nat \<Rightarrow> nat \<Rightarrow> nat \<Rightarrow> 'a::{zero,plus,times,ord} env \<Rightarrow> 'a env \<Rightarrow> node \<Rightarrow> bool"
where
  "related B T K t e e' n \<longleftrightarrow>
     (\<forall>u u'. eval e n = Inr u \<longrightarrow> eval e' n = Inr u' \<longrightarrow>
        wf u \<and> wf u' \<and> shape u = [B, 1, T, K] \<and> shape u' = [B, 1, T, K] \<and>
        agree_upto 2 t u u')"


text \<open>
  The values of the variables conform when every variable holds a well-formed tensor of
  its declared shape, as TensorFlow's variables do. A run of a node succeeds when it
  returns a well-formed activation of the shape (batch, 1, time, channels).
\<close>

definition conforms :: "(nat \<Rightarrow> 'a tensor) \<Rightarrow> variable \<Rightarrow> bool" where
  "conforms vars v \<longleftrightarrow> map int (shape (vars (var_id v))) = var_shape v \<and> wf (vars (var_id v))"

definition succeeds ::
  "nat \<Rightarrow> nat \<Rightarrow> nat \<Rightarrow> 'a::{zero,plus,times,ord} env \<Rightarrow> node \<Rightarrow> bool"
where
  "succeeds B T K e n \<longleftrightarrow> (\<exists>u. eval e n = Inr u \<and> wf u \<and> shape u = [B, 1, T, K])"

text \<open>
  The activations of a node are the tensors computed on the way to it: the node and
  everything it is computed from, except the placeholders and the variables
  themselves. A node is free of squeezes when no \<open>Squeeze\<close> occurs in it.
\<close>

fun activations :: "node \<Rightarrow> node list" where
  "activations (Placeholder i s) = []"
| "activations (Read v) = []"
| "activations (ExpandDims x ax) = ExpandDims x ax # activations x"
| "activations (Pad x paddings) = Pad x paddings # activations x"
| "activations (Conv2D x w) = Conv2D x w # activations x @ activations w"
| "activations (AtrousConv2D x w rate) = AtrousConv2D x w rate # activations x @ activations w"
| "activations (Add x b) = Add x b # activations x @ activations b"
| "activations (Relu x) = Relu x # activations x"
| "activations (Concat ax xs) = Concat ax xs # concat (map activations xs)"
| "activations (Squeeze x axes) = Squeeze x axes # activations x"

fun squeeze_free :: "node \<Rightarrow> bool" where
  "squeeze_free (Placeholder i s) = True"
| "squeeze_free (Read v) = True"
| "squeeze_free (ExpandDims x ax) = squeeze_free x"
| "squeeze_free (Pad x paddings) = squeeze_free x"
| "squeeze_free (Conv2D x w) = (squeeze_free x \<and> squeeze_free w)"
| "squeeze_free (AtrousConv2D x w rate) = (squeeze_free x \<and> squeeze_free w)"
| "squeeze_free (Add x b) = (squeeze_free x \<and> squeeze_free b)"
| "squeeze_free (Relu x) = squeeze_free x"
| "squeeze_free (Concat ax xs) = list_all squeeze_free xs"
| "squeeze_free (Squeeze x axes) = False"

definition heights_one :: "'a::{zero,plus,times,ord} env \<Rightarrow> node \<Rightarrow> bool" where
  "heights_one e n \<longleftrightarrow>
     (\<forall>m \<in> set (activations n). \<forall>v. eval e m = Inr v \<longrightarrow>
        length (shape v) = 4 \<and> shape v ! 1 = 1)"

section \<open>A small network\<close>

text \<open>
  A network of two levels with one filter of length 2 per layer, one input and two
  outputs, over the integers, with its ten variables at fixed values. The variables
  are numbered in the order of their creation: four per level (H weight, H bias,
  G weight, G bias; the G weight of level 0 takes two channels), then the final weight
  and bias.
\<close>

definition example_params :: params where
  "example_params =
     \<lparr>n_inputs = 1, n_outputs = 2, n_levels = 2, n_filters = 1, filter_length = 2,
      random_seed = Some 0\<rparr>"

definition example_vars :: "nat \<Rightarrow> int tensor" where
  "example_vars i =
     (if i = 0 \<or> i = 4 \<or> i = 6 then \<lparr>shape = [1, 2, 1, 1], elems = [1, 1]\<rparr>
      else if i = 2 then \<lparr>shape = [1, 2, 2, 1], elems = [1, 1, 1, 1]\<rparr>
      else if i = 9 then \<lparr>shape = [1, 2, 1, 2], elems = [1, -1, 1, 1]\<rparr>
      else if i = 10 then \<lparr>shape = [2], elems = [0, 5]\<rparr>
      else \<lparr>shape = [1], elems = [0]\<rparr>)"

section \<open>The loss and activation utilities\<close>

text \<open>
  \<open>mse_loss\<close> and \<open>softmax\<close> are given by what they compute on the values of
  their arguments, over the real numbers: the entries are finite numbers and the
  arithmetic is exact. The rounding of the floating-point kernels, the infinities and
  NaN entries are not modelled, and the statements about these two functions are
  limited accordingly. The one value of floating-point arithmetic that the model keeps
  is the mean of no entries, 0/0, which TensorFlow returns as NaN: the model returns
  \<open>NotANumber\<close> in its place.
\<close>





text \<open>
  \<open>tf.reshape(x, dims)\<close>: the same entries under a new shape. At most one size may be
  \<open>-1\<close>; it is then inferred from the number of entries, which needs the product of
  the other sizes to be positive and to divide that number.
\<close>

definition tf_reshape :: "int list \<Rightarrow> 'a tensor \<Rightarrow> error + 'a tensor" where
  "tf_reshape dims x =
     (let total = int (prod_list (shape x));
          known = prod_list (filter (\<lambda>d. d \<noteq> - 1) dims)
      in if list_ex (\<lambda>d. d < - 1) dims \<or> 1 < length (filter (\<lambda>d. d = - 1) dims)
         then Inl ReshapeError
         else if - 1 \<in> set dims
         then (if known \<le> 0 \<or> total mod known \<noteq> 0 then Inl ReshapeError
               else Inr (x\<lparr>shape :=
                      map (\<lambda>d. nat (if d = - 1 then total div known else d)) dims\<rparr>))
         else if known = total then Inr (x\<lparr>shape := map nat dims\<rparr>)
         else Inl ReshapeError)"

text \<open>
  \<open>tf.nn.softmax(x)\<close> for a matrix \<open>x\<close>: every row is exponentiated and divided by
  its sum.
\<close>

definition nn_softmax :: "real tensor \<Rightarrow> error + real tensor" where
  "nn_softmax x =
     (if length (shape x) = 2
      then Inr (build (shape x)
             (\<lambda>idx. exp (elem_at x idx) /
                    sum_list (map (\<lambda>k. exp (elem_at x [idx ! 0, k])) [0..<shape x ! 1])))
      else Inl SoftmaxError)"

text \<open>
  \<open>softmax\<close> reads the size of axis 2 of its argument (\<open>shape[2]\<close>), which fails for
  an argument of fewer than three axes.
\<close>

definition softmax :: "real tensor \<Rightarrow> error + real tensor" where
  "softmax yh =
     (let shp = map int (shape yh)
      in if length shp \<le> 2 then Inl SliceError
         else and_then (tf_reshape [- 1, shp ! 2] yh)
                (\<lambda>y2. and_then (nn_softmax y2) (\<lambda>sf. tf_reshape shp sf)))"

text \<open>
  The softmax over the last axis, entry by entry: what \<open>softmax\<close> is meant to return.
\<close>

definition softmax_last_axis :: "real tensor \<Rightarrow> nat list \<Rightarrow> real" where
  "softmax_last_axis x idx =
     exp (elem_at x idx) /
     sum_list (map (\<lambda>k. exp (elem_at x (idx[length idx - 1 := k]))) [0..<last (shape x)])"


section \<open>The loops build the closed form\<close>

lemma foldl_level_variables:
  "foldl (level_variables p)
     \<lparr>H_weights = [], H_biases = [], G_weights = [], G_biases = [], next_id = 0\<rparr>
     (map int [0..<k]) =
   \<lparr>H_weights = map (H_weight p) [0..<k], H_biases = map (H_bias p) [0..<k],
    G_weights = map (G_weight p) [0..<k], G_biases = map (G_bias p) [0..<k],
    next_id = 4 * k\<rparr>"
  by (induction k)
    (simp_all add: level_variables_def init_normal_def H_weight_def H_bias_def G_weight_def
      G_bias_def)

lemma all_variables_eq:
  "all_variables p =
   \<lparr>H_weights = map (H_weight p) [0..<nat (n_levels p)],
    H_biases = map (H_bias p) [0..<nat (n_levels p)],
    G_weights = map (G_weight p) [0..<nat (n_levels p)],
    G_biases = map (G_bias p) [0..<nat (n_levels p)],
    next_id = 4 * nat (n_levels p)\<rparr>"
  by (simp add: all_variables_def range_py_def foldl_level_variables)

lemma H_loop_upt:
  "k \<le> n \<Longrightarrow>
   H_loop (filter_length p) (map (\<lambda>l. (H_weight p l, H_bias p l)) [k..<n])
     (if k = 0 then x0 else H_layer p x0 (k - 1), map (H_layer p x0) [0..<k], 2 ^ k) =
   (if n = 0 then x0 else H_layer p x0 (n - 1), map (H_layer p x0) [0..<n], 2 ^ n)"
proof (induction "n - k" arbitrary: k)
  case 0
  then show ?case by simp
next
  case (Suc d)
  then have kn: "k < n" and d: "d = n - Suc k" by simp_all
  have step: "[k..<n] = k # [Suc k..<n]" using kn by (simp add: upt_conv_Cons)
  have layer: "Relu (conv (if k = 0 then x0 else H_layer p x0 (k - 1)) (Read (H_weight p k))
        (Read (H_bias p k)) (filter_length p) (2 ^ k)) = H_layer p x0 k"
    by (cases k) simp_all
  show ?case
    using Suc.hyps(1) [of "Suc k"] d kn
    by (simp add: step layer Let_def mult.commute)
qed

lemma analysis_eq:
  "analysis p x0 =
   (if nat (n_levels p) = 0 then x0 else H_layer p x0 (nat (n_levels p) - 1),
    map (H_layer p x0) [0..<nat (n_levels p)], 2 ^ nat (n_levels p))"
  using H_loop_upt [of 0 "nat (n_levels p)" p x0]
  by (simp add: analysis_def all_variables_eq zip_map_map zip_same_conv_map comp_def)

lemma G_loop_rev:
  "0 < k \<Longrightarrow> k \<le> nat (n_levels p) \<Longrightarrow>
   G_loop (filter_length p)
     (map (\<lambda>l. (H_layer p x0 l, G_weight p l, G_bias p l)) (rev [0..<k]))
     (xo, if k = nat (n_levels p) then None else Some (G_layer p x0 k), 2 ^ k) =
   (G_layer p x0 0, Some (G_layer p x0 0), 1)"
proof (induction k arbitrary: xo)
  case 0
  then show ?case by simp
next
  case (Suc k)
  have layer:
    "Relu (conv
       (case (if Suc k = nat (n_levels p) then None else Some (G_layer p x0 (Suc k))) of
          None \<Rightarrow> H_layer p x0 k
        | Some xp \<Rightarrow> Concat 3 [xp, H_layer p x0 k])
       (Read (G_weight p k)) (Read (G_bias p k)) (filter_length p) (2 ^ Suc k)) =
     G_layer p x0 k"
    using Suc.prems by (subst (2) G_layer.simps) auto
  have half: "(2 ^ Suc k) div 2 = (2 ^ k :: int)" by simp
  have kn: "(if k = nat (n_levels p) then None else Some (G_layer p x0 k)) =
      Some (G_layer p x0 k)"
    using Suc.prems by simp
  have unroll: "rev [0..<Suc k] = k # rev [0..<k]" by simp
  have step:
    "G_loop (filter_length p)
       (map (\<lambda>l. (H_layer p x0 l, G_weight p l, G_bias p l)) (rev [0..<Suc k]))
       (xo, if Suc k = nat (n_levels p) then None else Some (G_layer p x0 (Suc k)),
        2 ^ Suc k) =
     G_loop (filter_length p)
       (map (\<lambda>l. (H_layer p x0 l, G_weight p l, G_bias p l)) (rev [0..<k]))
       (G_layer p x0 k, Some (G_layer p x0 k), 2 ^ k)"
    by (simp only: unroll list.map G_loop.simps Let_def layer half)
  show ?case
  proof (cases "k = 0")
    case True
    then have "G_loop (filter_length p)
       (map (\<lambda>l. (H_layer p x0 l, G_weight p l, G_bias p l)) (rev [0..<k]))
       (G_layer p x0 k, Some (G_layer p x0 k), 2 ^ k) =
      (G_layer p x0 0, Some (G_layer p x0 0), 1)"
      by simp
    then show ?thesis by (simp only: step)
  next
    case False
    then have "0 < k" "k \<le> nat (n_levels p)" using Suc.prems by simp_all
    from Suc.IH [OF this, of "G_layer p x0 k"] show ?thesis
      by (simp only: step kn)
  qed
qed

lemma synthesis_analysis_eq:
  "synthesis p (analysis p x0) =
   (if nat (n_levels p) = 0 then (x0, None, 1)
    else (G_layer p x0 0, Some (G_layer p x0 0), 1))"
proof (cases "nat (n_levels p) = 0")
  case True
  then show ?thesis by (simp add: synthesis_def analysis_eq all_variables_eq)
next
  case False
  then have pos: "0 < nat (n_levels p)" by simp
  have zips:
    "zip (rev (map (H_layer p x0) [0..<nat (n_levels p)]))
       (zip (rev (map (G_weight p) [0..<nat (n_levels p)]))
            (rev (map (G_bias p) [0..<nat (n_levels p)]))) =
     map (\<lambda>l. (H_layer p x0 l, G_weight p l, G_bias p l)) (rev [0..<nat (n_levels p)])"
    by (simp add: rev_map zip_map_map zip_same_conv_map comp_def)
  show ?thesis
    using G_loop_rev [OF pos order_refl, of x0 "H_layer p x0 (nat (n_levels p) - 1)"] False
    by (simp add: synthesis_def analysis_eq all_variables_eq zips del: rev_map)
qed

lemma construct_ufcnn_eq:
  "construct_ufcnn p =
   \<lparr>x_in = input_node p,
    y_hat = Squeeze (conv (last_layer p) (Read (C_weight p)) (Read (C_bias p))
              (filter_length p) 1) [1],
    y = Placeholder (4 * nat (n_levels p) + 3) [None, None, Some (n_outputs p)],
    weights = map (H_weight p) [0..<nat (n_levels p)] @
              map (G_weight p) [0..<nat (n_levels p)] @ [C_weight p],
    biases = map (H_bias p) [0..<nat (n_levels p)] @
             map (G_bias p) [0..<nat (n_levels p)] @ [C_bias p]\<rparr>"
  by (simp add: construct_ufcnn_def synthesis_analysis_eq all_variables_eq init_normal_def
      C_weight_def C_bias_def input_node_def last_layer_def Let_def)

lemma layer_dilation_conv: "layer_dilation (Relu (conv x w b flen d)) = Some d"
  by (simp add: conv_def Let_def)

lemma H_layer_dilation: "layer_dilation (H_layer p x0 l) = Some (2 ^ l)"
  by (cases l) (simp_all only: H_layer.simps layer_dilation_conv power_0)

lemma G_layer_dilation: "layer_dilation (G_layer p x0 l) = Some (2 * 2 ^ l)"
  by (subst G_layer.simps) (simp only: layer_dilation_conv power_Suc)

section \<open>Indexing tensors\<close>

lemma length_indices: "length (indices shp) = prod_list shp"
  by (induction shp) (simp_all add: indices_def length_concat comp_def sum_list_triv)

lemma valid_index_simps [simp]:
  "valid_index [] idx = (idx = [])"
  "valid_index (n # ns) idx = (\<exists>i js. idx = i # js \<and> i < n \<and> valid_index ns js)"
  by (auto simp: valid_index_def list_all2_Cons2)

lemma offset_less: "valid_index shp idx \<Longrightarrow> offset shp idx < prod_list shp"
proof (induction shp arbitrary: idx)
  case Nil
  then show ?case by simp
next
  case (Cons n ns)
  then obtain i js where idx: "idx = i # js" and i: "i < n" and v: "valid_index ns js"
    by auto
  have "i * prod_list ns + offset ns js < i * prod_list ns + prod_list ns"
    using Cons.IH [OF v] by simp
  also have "\<dots> = Suc i * prod_list ns" by simp
  also have "\<dots> \<le> n * prod_list ns"
    using i by (intro mult_le_mono1) simp
  finally show ?case by (simp add: idx)
qed

lemma nth_concat_uniform:
  assumes "\<And>i. i < n \<Longrightarrow> length (g i) = m" and "i < n" and "j < m"
  shows "concat (map g [0..<n]) ! (i * m + j) = g i ! j"
  using assms
proof (induction n arbitrary: i)
  case 0
  then show ?case by simp
next
  case (Suc n)
  have "sum_list (map (\<lambda>x. length (g x)) [0..<n]) = sum_list (map (\<lambda>x. m) [0..<n])"
    using Suc.prems(1) by (intro arg_cong [where f = sum_list] map_cong) auto
  then have len: "length (concat (map g [0..<n])) = n * m"
    by (simp add: length_concat comp_def sum_list_triv)
  show ?case
  proof (cases "i < n")
    case True
    have "i * m + j < i * m + m" using Suc.prems(3) by simp
    also have "\<dots> = Suc i * m" by simp
    also have "\<dots> \<le> n * m" using True by (intro mult_le_mono1) simp
    finally have "i * m + j < n * m" .
    then show ?thesis
      using Suc.IH [of i] Suc.prems True by (simp add: nth_append len)
  next
    case False
    then have "i = n" using Suc.prems(2) by simp
    then show ?thesis by (simp add: nth_append len)
  qed
qed

lemma nth_indices: "valid_index shp idx \<Longrightarrow> indices shp ! offset shp idx = idx"
proof (induction shp arbitrary: idx)
  case Nil
  then show ?case by (simp add: indices_def)
next
  case (Cons n ns)
  then obtain i js where idx: "idx = i # js" and i: "i < n" and v: "valid_index ns js"
    by auto
  have eq: "indices (n # ns) = concat (map (\<lambda>i. map ((#) i) (indices ns)) [0..<n])"
    by (simp add: indices_def)
  have "indices (n # ns) ! (i * prod_list ns + offset ns js) =
        map ((#) i) (indices ns) ! offset ns js"
    unfolding eq
    by (rule nth_concat_uniform) (simp_all add: length_indices i offset_less [OF v])
  then show ?case
    using Cons.IH [OF v] offset_less [OF v] by (simp add: length_indices idx)
qed

lemma elem_at_build: "valid_index shp idx \<Longrightarrow> elem_at (build shp f) idx = f idx"
  by (simp add: elem_at_def build_def nth_indices offset_less length_indices)

lemma shape_build [simp]: "shape (build shp f) = shp"
  by (simp add: build_def)

lemma wf_build [simp]: "wf (build shp f)"
  by (simp add: wf_def build_def length_indices)

lemma set_indices: "set (indices shp) = {idx. valid_index shp idx}"
  by (auto simp: indices_def product_lists_set valid_index_def list_all2_map2)

lemma build_cong:
  "(\<And>idx. valid_index shp idx \<Longrightarrow> f idx = g idx) \<Longrightarrow> build shp f = build shp g"
  by (simp add: build_def set_indices)

lemma agree_upto_iff:
  "agree_upto ax t u v \<longleftrightarrow>
   shape u = shape v \<and>
   (\<forall>idx. valid_index (shape u) idx \<longrightarrow> idx ! ax \<le> t \<longrightarrow> elem_at u idx = elem_at v idx)"
  by (auto simp: agree_upto_def list_all_iff set_indices)

section \<open>A call of \<open>conv\<close> computes the causal dilated convolution\<close>

lemma valid_index4:
  "valid_index [B, H, T, C] idx \<longleftrightarrow>
   (\<exists>b h t c. idx = [b, h, t, c] \<and> b < B \<and> h < H \<and> t < T \<and> c < C)"
  by auto

lemma nth4:
  "[a, b, c, d] ! 0 = a" "[a, b, c, d] ! 1 = b" "[a, b, c, d] ! 2 = c" "[a, b, c, d] ! 3 = d"
  by simp_all

lemma project_same: "i < n \<Longrightarrow> (if n = Suc 0 then 0 else i) = i"
  by auto

lemma tf_pad_time:
  assumes "shape x = [B, H, T, C]"
  shows "tf_pad [(0, 0), (0, 0), (pl, 0), (0, 0)] x =
    (if 0 \<le> pl
     then Inr (build [B, H, T + nat pl, C]
            (\<lambda>idx. if idx ! 2 < nat pl then 0
                   else elem_at x [idx ! 0, idx ! 1, idx ! 2 - nat pl, idx ! 3]))
     else Inl PadError)"
proof (cases "0 \<le> pl")
  case False
  then show ?thesis by (simp add: tf_pad_def assms)
next
  case True
  show ?thesis
    using True
    apply (simp add: tf_pad_def assms del: valid_index_simps)
    apply (subst add.commute [of "nat pl" T])
    apply (rule build_cong)
    apply (auto simp: valid_index4)
    done
qed

lemma valid_conv_filter:
  assumes "shape x = [B, H, W, C]" and "shape w = [1, F, C', K]"
  shows "valid_conv r x w =
    (if C = C' \<and> 0 < F \<and> r * (F - 1) \<le> W
     then Inr (build [B, H, W - r * (F - 1), K]
            (\<lambda>idx. sum_of
               (map (\<lambda>(di, dj, q).
                       elem_at x [idx ! 0, idx ! 1 + r * di, idx ! 2 + r * dj, q] *
                       elem_at w [di, dj, q, idx ! 3])
                  (List.product [0..<1] (List.product [0..<F] [0..<C])))))
     else Inl ConvError)"
  by (auto simp: valid_conv_def assms Let_def)

lemma tf_add_bias:
  assumes "shape b = [K]"
  shows "tf_add (build [B, H, T, K] f) b =
         Inr (build [B, H, T, K] (\<lambda>idx. f idx + elem_at b [idx ! 3]))"
proof -
  have bs: "broadcast_shape [B, H, T, K] [K] = Some [B, H, T, K]"
    by (simp add: broadcast_shape_def)
  show ?thesis
    apply (simp add: tf_add_def assms bs del: valid_index_simps)
    apply (rule build_cong)
    apply (auto simp: valid_index4 project_def elem_at_build project_same)
    done
qed


lemma and_then_Inr [simp]: "and_then (Inr v) f = f v"
  by (simp add: and_then_def)

lemma and_then_Inl [simp]: "and_then (Inl err) f = Inl err"
  by (simp add: and_then_def)

lemma eval_conv:
  assumes x: "eval e xn = Inr xv" and sx: "shape xv = [B, H, T, C]"
    and w: "eval e wn = Inr wv" and sw: "shape wv = [1, F, C', K]"
    and b: "eval e bn = Inr bv" and sb: "shape bv = [K]"
    and F: "int F = flen"
  shows "eval e (conv xn wn bn flen d) =
     (if 1 \<le> flen \<and> 1 \<le> d \<and> C = C' then Inr (causal_conv (nat d) xv wv bv)
      else Inl (if 0 \<le> d * (flen - 1) then ConvError else PadError))"
proof -
  define padded where "padded = build [B, H, T + nat (d * (flen - 1)), C]
      (\<lambda>idx. if idx ! 2 < nat (d * (flen - 1)) then 0
             else elem_at xv [idx ! 0, idx ! 1, idx ! 2 - nat (d * (flen - 1)), idx ! 3])"
  have pad: "eval e (Pad xn [(0, 0), (0, 0), (d * (flen - 1), 0), (0, 0)]) =
      (if 0 \<le> d * (flen - 1) then Inr padded else Inl PadError)"
    by (simp add: x tf_pad_time [OF sx] padded_def)
  have conv_op: "eval e (if d = 1
        then Conv2D (Pad xn [(0, 0), (0, 0), (d * (flen - 1), 0), (0, 0)]) wn
        else AtrousConv2D (Pad xn [(0, 0), (0, 0), (d * (flen - 1), 0), (0, 0)]) wn d) =
      (if 0 \<le> d * (flen - 1)
       then (if 1 \<le> d then valid_conv (nat d) padded wv else Inl ConvError)
       else Inl PadError)"
  proof (cases "d = 1")
    case True
    have "eval e (Conv2D (Pad xn [(0, 0), (0, 0), (d * (flen - 1), 0), (0, 0)]) wn) =
        (if 0 \<le> d * (flen - 1) then valid_conv 1 padded wv else Inl PadError)"
      by (simp only: eval.simps(5) pad w) (simp add: conv2d_def)
    then show ?thesis using True by simp
  next
    case False
    have "eval e (AtrousConv2D (Pad xn [(0, 0), (0, 0), (d * (flen - 1), 0), (0, 0)]) wn d) =
        (if 0 \<le> d * (flen - 1)
         then (if 1 \<le> d then valid_conv (nat d) padded wv else Inl ConvError)
         else Inl PadError)"
      by (simp only: eval.simps(6) pad w) (simp add: atrous_conv2d_def)
    then show ?thesis using False by simp
  qed
  show ?thesis
  proof (cases "1 \<le> flen \<and> 1 \<le> d \<and> C = C'")
    case False
    have "F = 0 \<or> 0 < F" by auto
    then have "eval e (if d = 1
        then Conv2D (Pad xn [(0, 0), (0, 0), (d * (flen - 1), 0), (0, 0)]) wn
        else AtrousConv2D (Pad xn [(0, 0), (0, 0), (d * (flen - 1), 0), (0, 0)]) wn d) =
        Inl (if 0 \<le> d * (flen - 1) then ConvError else PadError)"
      using False F
      by (auto simp: conv_op valid_conv_filter [OF _ sw] padded_def)
    then show ?thesis using False by (simp add: conv_def Let_def)
  next
    case True
    then have fl: "1 \<le> flen" and d: "1 \<le> d" and C: "C = C'" by simp_all
    have Fpos: "0 < F" using fl F by simp
    have p0: "0 \<le> d * (flen - 1)" using fl d by simp
    have p: "nat (d * (flen - 1)) = nat d * (F - 1)"
      using fl d F by (simp add: nat_mult_distrib of_nat_diff)
    have cv: "valid_conv (nat d) padded wv =
        Inr (build [B, H, T, K]
          (\<lambda>idx. sum_of
             (map (\<lambda>(di, dj, q).
                     elem_at padded [idx ! 0, idx ! 1 + nat d * di, idx ! 2 + nat d * dj, q] *
                     elem_at wv [di, dj, q, idx ! 3])
                (List.product [0..<1] (List.product [0..<F] [0..<C])))))"
      using valid_conv_filter [of padded B H "T + nat (d * (flen - 1))" C wv F C' K "nat d"]
      by (simp add: padded_def sw C Fpos p)
    have "eval e (conv xn wn bn flen d) =
        Inr (build [B, H, T, K]
          (\<lambda>idx. sum_of
             (map (\<lambda>(di, dj, q).
                     elem_at padded [idx ! 0, idx ! 1 + nat d * di, idx ! 2 + nat d * dj, q] *
                     elem_at wv [di, dj, q, idx ! 3])
                (List.product [0..<1] (List.product [0..<F] [0..<C]))) +
             elem_at bv [idx ! 3]))"
      using d p0
      by (simp add: conv_def Let_def conv_op cv b tf_add_bias [OF sb] del: eval.simps(5,6))
    also have "\<dots> = Inr (causal_conv (nat d) xv wv bv)"
    proof -
      define L where "L = List.product [0..<1::nat] (List.product [0..<F] [0..<C'])"
      have pt: "(\<lambda>(di, dj, q).
                elem_at padded [b', h + nat d * di, t + nat d * dj, q] * elem_at wv [di, dj, q, k]) z =
            (\<lambda>(di, dj, q).
                (if t + nat d * dj < nat d * (F - 1) then 0
                 else elem_at xv [b', h, t + nat d * dj - nat d * (F - 1), q]) *
                elem_at wv [di, dj, q, k]) z"
        if v: "b' < B" "h < H" "t < T" "k < K" and z: "z \<in> set L"
        for b' h t k z
      proof -
        obtain di dj q where zz: "z = (di, dj, q)" by (cases z) auto
        have di: "di = 0" and dj: "dj < F" and q: "q < C" using z zz C by (auto simp: L_def)
        have "nat d * dj \<le> nat d * (F - 1)" using dj by (intro mult_le_mono2) simp
        then have "t + nat d * dj < T + nat d * (F - 1)"
          using v(3) by linarith
        then have "valid_index [B, H, T + nat (d * (flen - 1)), C] [b', h, t + nat d * dj, q]"
          using v q by (simp add: p)
        then show ?thesis
          by (simp add: zz di padded_def elem_at_build p del: valid_index_simps)
      qed
      have "build [B, H, T, K]
          (\<lambda>idx. sum_of
             (map (\<lambda>(di, dj, q).
                     elem_at padded [idx ! 0, idx ! 1 + nat d * di, idx ! 2 + nat d * dj, q] *
                     elem_at wv [di, dj, q, idx ! 3]) L) +
             elem_at bv [idx ! 3]) =
        build [B, H, T, K]
          (\<lambda>idx. sum_of
             (map (\<lambda>(di, dj, q).
                  (if idx ! 2 + nat d * dj < nat d * (F - 1) then 0
                   else elem_at xv
                          [idx ! 0, idx ! 1, idx ! 2 + nat d * dj - nat d * (F - 1), q]) *
                  elem_at wv [di, dj, q, idx ! 3]) L) +
             elem_at bv [idx ! 3])"
      proof (rule build_cong)
        fix idx :: "nat list"
        assume "valid_index [B, H, T, K] idx"
        then obtain b' h t k where idx: "idx = [b', h, t, k]"
          and v: "b' < B" "h < H" "t < T" "k < K"
          by (auto simp: valid_index4)
        have "map (\<lambda>(di, dj, q).
                elem_at padded [b', h + nat d * di, t + nat d * dj, q] * elem_at wv [di, dj, q, k]) L =
              map (\<lambda>(di, dj, q).
                (if t + nat d * dj < nat d * (F - 1) then 0
                 else elem_at xv [b', h, t + nat d * dj - nat d * (F - 1), q]) *
                elem_at wv [di, dj, q, k]) L"
          by (rule map_cong [OF refl]) (rule pt [OF v])
        then show "sum_of
             (map (\<lambda>(di, dj, q).
                     elem_at padded [idx ! 0, idx ! 1 + nat d * di, idx ! 2 + nat d * dj, q] *
                     elem_at wv [di, dj, q, idx ! 3]) L) +
             elem_at bv [idx ! 3] =
           sum_of
             (map (\<lambda>(di, dj, q).
                  (if idx ! 2 + nat d * dj < nat d * (F - 1) then 0
                   else elem_at xv
                          [idx ! 0, idx ! 1, idx ! 2 + nat d * dj - nat d * (F - 1), q]) *
                  elem_at wv [di, dj, q, idx ! 3]) L) +
             elem_at bv [idx ! 3]"
          by (simp only: idx nth4)
      qed
      then show ?thesis
        unfolding causal_conv_def sx sw L_def C nth4 by (rule arg_cong [where f = Inr])
    qed
    finally show ?thesis using True by simp
  qed
qed

section \<open>Shapes and entries of the other operations\<close>

lemma shape_tf_relu [simp]: "shape (tf_relu x) = shape x"
  by (simp add: tf_relu_def)

lemma wf_tf_relu [simp]: "wf (tf_relu x) = wf x"
  by (simp add: tf_relu_def wf_def)

lemma elem_at_tf_relu:
  "wf x \<Longrightarrow> valid_index (shape x) idx \<Longrightarrow> elem_at (tf_relu x) idx = max (elem_at x idx) 0"
  using offset_less [of "shape x" idx] by (simp add: tf_relu_def elem_at_def wf_def)

lemma shape_causal_conv [simp]:
  "shape (causal_conv r x w b) = [shape x ! 0, shape x ! 1, shape x ! 2, shape w ! 3]"
  by (simp add: causal_conv_def)

lemma wf_causal_conv [simp]: "wf (causal_conv r x w b)"
  by (simp add: causal_conv_def)

lemma tf_concat_channels:
  assumes "shape a = [B, H, T, Ka]" and "shape b = [B', H', T', Kb]"
  shows "tf_concat 3 [a, b] =
    (if B = B' \<and> H = H' \<and> T = T'
     then Inr (build [B, H, T, Ka + Kb]
            (\<lambda>idx. if idx ! 3 < Ka then elem_at a idx else elem_at b (idx[3 := idx ! 3 - Ka])))
     else Inl ConcatError)"
  by (auto simp: concat2_def assms numeral_3_eq_3 cong: if_cong)

lemma tf_expand_dims_1:
  assumes "shape x = [B, T, C]"
  shows "tf_expand_dims 1 x = Inr (x\<lparr>shape := [B, 1, T, C]\<rparr>)"
  by (simp add: tf_expand_dims_def assms Let_def)

lemma tf_squeeze_1:
  assumes "shape x = [B, H, T, C]"
  shows "tf_squeeze [1] x = (if H = 1 then Inr (x\<lparr>shape := [B, T, C]\<rparr>) else Inl SqueezeError)"
  by (simp add: tf_squeeze_def assms upt_rec numeral_eq_Suc)


lemma agree_upto4:
  assumes "shape u = [B, H, T, C]"
  shows "agree_upto 2 t u v \<longleftrightarrow>
    shape v = [B, H, T, C] \<and>
    (\<forall>b h j c. b < B \<longrightarrow> h < H \<longrightarrow> j < T \<longrightarrow> c < C \<longrightarrow> j \<le> t \<longrightarrow>
       elem_at u [b, h, j, c] = elem_at v [b, h, j, c])"
  unfolding agree_upto_iff assms by (auto simp: valid_index4)

lemma agree_upto3:
  assumes "shape u = [B, T, C]"
  shows "agree_upto 1 t u v \<longleftrightarrow>
    shape v = [B, T, C] \<and>
    (\<forall>b j c. b < B \<longrightarrow> j < T \<longrightarrow> c < C \<longrightarrow> j \<le> t \<longrightarrow>
       elem_at u [b, j, c] = elem_at v [b, j, c])"
  unfolding agree_upto_iff assms by auto

lemma agree_causal_conv:
  assumes sx: "shape x = [B, H, T, C]" and ag: "agree_upto 2 t x x'"
    and sw: "shape w = [1, F, C, K]"
  shows "agree_upto 2 t (causal_conv r x w b) (causal_conv r x' w b)"
proof -
  have sx': "shape x' = [B, H, T, C]"
    and eq: "\<And>b h j c. b < B \<Longrightarrow> h < H \<Longrightarrow> j < T \<Longrightarrow> c < C \<Longrightarrow> j \<le> t \<Longrightarrow>
       elem_at x [b, h, j, c] = elem_at x' [b, h, j, c]"
    using ag unfolding agree_upto4 [OF sx] by auto
  define L where "L = List.product [0..<1::nat] (List.product [0..<F] [0..<C])"
  have "elem_at (causal_conv r x w b) [b', h, j, k] = elem_at (causal_conv r x' w b) [b', h, j, k]"
    if v: "b' < B" "h < H" "j < T" "k < K" and jt: "j \<le> t" for b' h j k
  proof -
    have pt: "(\<lambda>(di, dj, q).
        (if j + r * dj < r * (F - 1) then 0
         else elem_at x [b', h, j + r * dj - r * (F - 1), q]) * elem_at w [di, dj, q, k]) z =
      (\<lambda>(di, dj, q).
        (if j + r * dj < r * (F - 1) then 0
         else elem_at x' [b', h, j + r * dj - r * (F - 1), q]) * elem_at w [di, dj, q, k]) z"
      if z: "z \<in> set L" for z
    proof -
      obtain di dj q where zz: "z = (di, dj, q)" by (cases z) auto
      have dj: "dj < F" and q: "q < C" using z zz by (auto simp: L_def)
      have "r * dj \<le> r * (F - 1)" using dj by (intro mult_le_mono2) simp
      then have le: "j + r * dj - r * (F - 1) \<le> j" by linarith
      have "elem_at x [b', h, j + r * dj - r * (F - 1), q] =
            elem_at x' [b', h, j + r * dj - r * (F - 1), q]"
        using le v jt q by (intro eq) simp_all
      then show ?thesis by (simp add: zz)
    qed
    have "map (\<lambda>(di, dj, q).
        (if j + r * dj < r * (F - 1) then 0
         else elem_at x [b', h, j + r * dj - r * (F - 1), q]) * elem_at w [di, dj, q, k]) L =
      map (\<lambda>(di, dj, q).
        (if j + r * dj < r * (F - 1) then 0
         else elem_at x' [b', h, j + r * dj - r * (F - 1), q]) * elem_at w [di, dj, q, k]) L"
      by (rule map_cong [OF refl]) (rule pt)
    moreover have "valid_index [B, H, T, K] [b', h, j, k]" using v by simp
    ultimately show ?thesis
      unfolding causal_conv_def sx sx' sw nth4 L_def
      by (simp only: elem_at_build nth4)
  qed
  moreover have sc: "shape (causal_conv r x w b) = [B, H, T, K]"
    by (simp add: sx sw)
  moreover have "shape (causal_conv r x' w b) = [B, H, T, K]"
    by (simp add: sx' sw)
  ultimately show ?thesis
    unfolding agree_upto4 [OF sc] by blast
qed

lemma agree_tf_relu:
  assumes "wf u" and "wf v" and "agree_upto ax t u v"
  shows "agree_upto ax t (tf_relu u) (tf_relu v)"
  using assms unfolding agree_upto_iff by (simp add: elem_at_tf_relu)

lemma agree_concat_channels:
  assumes sa: "shape a = [B, H, T, Ka]" and sb: "shape b = [B, H, T, Kb]"
    and aa: "agree_upto 2 t a a'" and bb: "agree_upto 2 t b b'"
  shows "agree_upto 2 t
      (build [B, H, T, Ka + Kb]
         (\<lambda>idx. if idx ! 3 < Ka then elem_at a idx else elem_at b (idx[3 := idx ! 3 - Ka])))
      (build [B, H, T, Ka + Kb]
         (\<lambda>idx. if idx ! 3 < Ka then elem_at a' idx else elem_at b' (idx[3 := idx ! 3 - Ka])))"
proof -
  have ea: "\<And>b' h j c. b' < B \<Longrightarrow> h < H \<Longrightarrow> j < T \<Longrightarrow> c < Ka \<Longrightarrow> j \<le> t \<Longrightarrow>
       elem_at a [b', h, j, c] = elem_at a' [b', h, j, c]"
    using aa unfolding agree_upto4 [OF sa] by auto
  have eb: "\<And>b'' h j c. b'' < B \<Longrightarrow> h < H \<Longrightarrow> j < T \<Longrightarrow> c < Kb \<Longrightarrow> j \<le> t \<Longrightarrow>
       elem_at b [b'', h, j, c] = elem_at b' [b'', h, j, c]"
    using bb unfolding agree_upto4 [OF sb] by auto
  have "elem_at (build [B, H, T, Ka + Kb]
         (\<lambda>idx. if idx ! 3 < Ka then elem_at a idx else elem_at b (idx[3 := idx ! 3 - Ka])))
         [b'', h, j, c] =
        elem_at (build [B, H, T, Ka + Kb]
         (\<lambda>idx. if idx ! 3 < Ka then elem_at a' idx else elem_at b' (idx[3 := idx ! 3 - Ka])))
         [b'', h, j, c]"
    if v: "b'' < B" "h < H" "j < T" "c < Ka + Kb" and jt: "j \<le> t" for b'' h j c
  proof -
    have vi: "valid_index [B, H, T, Ka + Kb] [b'', h, j, c]" using v by simp
    show ?thesis
    proof (cases "c < Ka")
      case True
      then show ?thesis using ea [OF v(1,2,3) True jt] by (simp add: elem_at_build [OF vi])
    next
      case False
      then have "c - Ka < Kb" using v(4) by simp
      from eb [OF v(1,2,3) this jt] False show ?thesis
        by (simp add: elem_at_build [OF vi] numeral_3_eq_3)
    qed
  qed
  then show ?thesis
    by (subst agree_upto4 [of _ B H T "Ka + Kb"]) simp_all
qed

lemma agree_expand:
  assumes sx: "shape x = [B, T, C]" and ag: "agree_upto 1 t x x'"
  shows "agree_upto 2 t (x\<lparr>shape := [B, 1, T, C]\<rparr>) (x'\<lparr>shape := [B, 1, T, C]\<rparr>)"
proof -
  have "shape x' = [B, T, C]" using ag unfolding agree_upto3 [OF sx] by simp
  then have e: "elem_at (x\<lparr>shape := [B, Suc 0, T, C]\<rparr>) [b, 0, j, c] = elem_at x [b, j, c]"
     "elem_at (x'\<lparr>shape := [B, Suc 0, T, C]\<rparr>) [b, 0, j, c] = elem_at x' [b, j, c]" for b j c
    using sx by (simp_all add: elem_at_def)
  show ?thesis
    using ag unfolding agree_upto3 [OF sx]
    by (subst agree_upto4 [of _ B 1 T C]) (simp_all add: e)
qed

lemma agree_squeeze:
  assumes sx: "shape x = [B, 1, T, C]" and ag: "agree_upto 2 t x x'"
  shows "agree_upto 1 t (x\<lparr>shape := [B, T, C]\<rparr>) (x'\<lparr>shape := [B, T, C]\<rparr>)"
proof -
  have "shape x' = [B, 1, T, C]" using ag unfolding agree_upto4 [OF sx] by simp
  then have e: "elem_at (x\<lparr>shape := [B, T, C]\<rparr>) [b, j, c] = elem_at x [b, 0, j, c]"
     "elem_at (x'\<lparr>shape := [B, T, C]\<rparr>) [b, j, c] = elem_at x' [b, 0, j, c]" for b j c
    using sx by (simp_all add: elem_at_def)
  show ?thesis
    using ag unfolding agree_upto4 [OF sx]
    by (subst agree_upto3 [of _ B T C]) (simp_all add: e)
qed

lemma agree_upto_refl: "agree_upto ax t u u"
  by (simp add: agree_upto_iff)


section \<open>Two runs that agree on the past\<close>

lemma and_then_eq_Inr: "and_then r f = Inr v \<longleftrightarrow> (\<exists>u. r = Inr u \<and> f u = Inr v)"
  by (cases r) simp_all

lemma eval_conv_InrD:
  assumes "eval e (conv xn wn bn flen d) = Inr u"
  obtains xv wv bv where "eval e xn = Inr xv" "eval e wn = Inr wv" "eval e bn = Inr bv"
  using assms by (cases "d = 1") (auto simp: conv_def Let_def and_then_eq_Inr)

lemma map_int_eq4:
  "map int s = [a, b, c, d] \<Longrightarrow> s = [nat a, nat b, nat c, nat d] \<and> int (nat b) = b"
  by (cases s; cases "tl s"; cases "tl (tl s)"; cases "tl (tl (tl s))") auto

lemma map_int_eq1: "map int s = [a] \<Longrightarrow> s = [nat a]"
  by (cases s) auto

lemma eval_Read_Inr:
  "eval e (Read v) = Inr wv \<longleftrightarrow>
   wv = var_value e (var_id v) \<and> map int (shape wv) = var_shape v \<and> wf wv"
  by (auto simp: Let_def)

lemma eval_conv_Inr:
  assumes ev: "eval e (conv xn (Read w) (Read b) flen d) = Inr u"
    and w: "var_shape w = [1, flen, cin, cout]" and b: "var_shape b = [cout]"
    and x: "eval e xn = Inr xv" and sx: "shape xv = [B, H, T, C]"
  shows "u = causal_conv (nat d) xv (var_value e (var_id w)) (var_value e (var_id b)) \<and>
         shape (var_value e (var_id w)) = [1, nat flen, C, nat cout] \<and>
         shape u = [B, H, T, nat cout] \<and> wf u \<and> 1 \<le> flen \<and> 1 \<le> d \<and> C = nat cin"
proof -
  obtain xv' wv bv where x': "eval e xn = Inr xv'" and ew: "eval e (Read w) = Inr wv"
    and eb: "eval e (Read b) = Inr bv"
    using ev by (rule eval_conv_InrD)
  have wv: "wv = var_value e (var_id w)" and bv: "bv = var_value e (var_id b)"
    and mw: "map int (shape wv) = var_shape w" and mb: "map int (shape bv) = var_shape b"
    using ew eb unfolding eval_Read_Inr by blast+
  have "map int (shape wv) = [1, flen, cin, cout]" using mw w by simp
  then have sw: "shape wv = [1, nat flen, nat cin, nat cout]" and F: "int (nat flen) = flen"
    using map_int_eq4 [of "shape wv" 1 flen cin cout] by simp_all
  have "map int (shape bv) = [cout]" using mb b by simp
  then have sb: "shape bv = [nat cout]" by (rule map_int_eq1)
  from eval_conv [OF x sx ew sw eb sb F, of d] ev
  have ok: "1 \<le> flen \<and> 1 \<le> d \<and> C = nat cin" and u: "u = causal_conv (nat d) xv wv bv"
    by (auto split: if_splits)
  show ?thesis using ok u sw sx by (simp add: wv bv)
qed

lemma related_conv:
  assumes rel: "related B T C t e e' xn" and vars: "var_value e = var_value e'"
    and w: "var_shape w = [1, flen, cin, cout]" and b: "var_shape b = [cout]"
  shows "related B T (nat cout) t e e' (conv xn (Read w) (Read b) flen d)"
  unfolding related_def
proof (intro allI impI)
  fix u u'
  assume ev: "eval e (conv xn (Read w) (Read b) flen d) = Inr u"
    and ev': "eval e' (conv xn (Read w) (Read b) flen d) = Inr u'"
  obtain xv where x: "eval e xn = Inr xv" using ev by (rule eval_conv_InrD)
  obtain xv' where x': "eval e' xn = Inr xv'" using ev' by (rule eval_conv_InrD)
  have sx: "shape xv = [B, 1, T, C]" and sx': "shape xv' = [B, 1, T, C]"
    and ag: "agree_upto 2 t xv xv'"
    using rel x x' by (simp_all add: related_def)
  note r = eval_conv_Inr [OF ev w b x sx] and r' = eval_conv_Inr [OF ev' w b x' sx']
  have "agree_upto 2 t u u'"
    using agree_causal_conv [OF sx ag, of "var_value e (var_id w)" "nat flen" "nat cout"
        "nat d" "var_value e (var_id b)"] r r'
    by (simp add: vars)
  then show "wf u \<and> wf u' \<and> shape u = [B, 1, T, nat cout] \<and> shape u' = [B, 1, T, nat cout] \<and>
      agree_upto 2 t u u'"
    using r r' by (simp add: sx sx')
qed

lemma related_relu:
  assumes "related B T K t e e' n"
  shows "related B T K t e e' (Relu n)"
  using assms unfolding related_def
  by (auto simp: and_then_eq_Inr intro: agree_tf_relu)

lemma related_concat:
  assumes a: "related B T Ka t e e' a" and b: "related B T Kb t e e' b"
  shows "related B T (Ka + Kb) t e e' (Concat 3 [a, b])"
  unfolding related_def
proof (intro allI impI)
  fix u u'
  assume ev: "eval e (Concat 3 [a, b]) = Inr u" and ev': "eval e' (Concat 3 [a, b]) = Inr u'"
  from ev obtain av bv where av: "eval e a = Inr av" and bv: "eval e b = Inr bv"
    and u: "tf_concat 3 [av, bv] = Inr u"
    by (auto simp: and_then_eq_Inr)
  from ev' obtain av' bv' where av': "eval e' a = Inr av'" and bv': "eval e' b = Inr bv'"
    and u': "tf_concat 3 [av', bv'] = Inr u'"
    by (auto simp: and_then_eq_Inr)
  have sa: "shape av = [B, 1, T, Ka]" "shape av' = [B, 1, T, Ka]" "agree_upto 2 t av av'"
    using a av av' by (simp_all add: related_def)
  have sb: "shape bv = [B, 1, T, Kb]" "shape bv' = [B, 1, T, Kb]" "agree_upto 2 t bv bv'"
    using b bv bv' by (simp_all add: related_def)
  have "u = build [B, 1, T, Ka + Kb]
            (\<lambda>idx. if idx ! 3 < Ka then elem_at av idx else elem_at bv (idx[3 := idx ! 3 - Ka]))"
    using u tf_concat_channels [OF sa(1) sb(1)] by simp
  moreover have "u' = build [B, 1, T, Ka + Kb]
            (\<lambda>idx. if idx ! 3 < Ka then elem_at av' idx else elem_at bv' (idx[3 := idx ! 3 - Ka]))"
    using u' tf_concat_channels [OF sa(2) sb(2)] by simp
  ultimately show "wf u \<and> wf u' \<and> shape u = [B, 1, T, Ka + Kb] \<and>
      shape u' = [B, 1, T, Ka + Kb] \<and> agree_upto 2 t u u'"
    using agree_concat_channels [OF sa(1) sb(1) sa(3) sb(3)] by simp
qed

lemma feedable3:
  "feedable [None, None, Some k] s \<longleftrightarrow> (\<exists>B T C. s = [B, T, C] \<and> k = int C)"
  by (auto simp: feedable_def list_all2_Cons1)

lemma wf_reshape: "prod_list s = prod_list (shape x) \<Longrightarrow> wf (x\<lparr>shape := s\<rparr>) = wf x"
  by (simp add: wf_def)

lemma eval_input:
  "eval (feed_env i x vars) (ExpandDims (Placeholder i [None, None, Some k]) 1) = Inr u \<longleftrightarrow>
   (\<exists>B T C. shape x = [B, T, C] \<and> k = int C \<and> wf x \<and> u = x\<lparr>shape := [B, 1, T, C]\<rparr>)"
  by (auto simp: feed_env_def feedable3 tf_expand_dims_1 and_then_eq_Inr)

lemma related_input:
  assumes "agree_upto 1 t x x'"
  shows "related (shape x ! 0) (shape x ! 1) (shape x ! 2) t (feed_env i x vars)
     (feed_env i x' vars) (ExpandDims (Placeholder i [None, None, Some k]) 1)"
  unfolding related_def
proof (intro allI impI)
  fix u u'
  assume "eval (feed_env i x vars) (ExpandDims (Placeholder i [None, None, Some k]) 1) = Inr u"
    and "eval (feed_env i x' vars) (ExpandDims (Placeholder i [None, None, Some k]) 1) = Inr u'"
  then obtain B T C B' T' C' where sx: "shape x = [B, T, C]" and wx: "wf x"
    and u: "u = x\<lparr>shape := [B, 1, T, C]\<rparr>"
    and sx': "shape x' = [B', T', C']" and wx': "wf x'"
    and u': "u' = x'\<lparr>shape := [B', 1, T', C']\<rparr>"
    unfolding eval_input by blast
  have same: "shape x = shape x'" using assms by (simp add: agree_upto_def)
  show "wf u \<and> wf u' \<and> shape u = [shape x ! 0, 1, shape x ! 1, shape x ! 2] \<and>
      shape u' = [shape x ! 0, 1, shape x ! 1, shape x ! 2] \<and> agree_upto 2 t u u'"
    using agree_expand [OF sx assms] wx wx' same sx sx'
    by (simp add: u u' wf_reshape)
qed

lemma var_shapes [simp]:
  "var_shape (H_weight p l) =
     [1, filter_length p, if l = 0 then n_inputs p else n_filters p, n_filters p]"
  "var_shape (H_bias p l) = [n_filters p]"
  "var_shape (G_weight p l) =
     [1, filter_length p, if int l = n_levels p - 1 then n_filters p else 2 * n_filters p,
      n_filters p]"
  "var_shape (G_bias p l) = [n_filters p]"
  "var_shape (C_weight p) = [1, filter_length p, n_filters p, n_outputs p]"
  "var_shape (C_bias p) = [n_outputs p]"
  by (simp_all add: H_weight_def H_bias_def G_weight_def G_bias_def C_weight_def C_bias_def)

lemma related_H_layer:
  assumes "related B T C t e e' x0" and "var_value e = var_value e'"
  shows "related B T (nat (n_filters p)) t e e' (H_layer p x0 l)"
proof (induction l)
  case 0
  show ?case
    unfolding H_layer.simps
    by (rule related_relu, rule related_conv [OF assms]) simp_all
next
  case (Suc l)
  show ?case
    unfolding H_layer.simps
    by (rule related_relu, rule related_conv [OF Suc assms(2)]) simp_all
qed

lemma related_G_layer:
  assumes "related B T C t e e' x0" and "var_value e = var_value e'"
  shows "related B T (nat (n_filters p)) t e e' (G_layer p x0 l)"
  using assms
proof (induction p x0 l rule: G_layer.induct)
  case (1 p x0 l)
  have H: "related B T (nat (n_filters p)) t e e' (H_layer p x0 l)"
    by (rule related_H_layer [OF "1.prems"])
  show ?case
  proof (cases "Suc l < nat (n_levels p)")
    case True
    have "related B T (nat (n_filters p) + nat (n_filters p)) t e e'
        (Concat 3 [G_layer p x0 (Suc l), H_layer p x0 l])"
      by (rule related_concat [OF "1.IH" [OF True "1.prems"] H])
    then show ?thesis
      apply (subst G_layer.simps)
      apply (simp only: True if_True)
      apply (rule related_relu)
      apply (erule related_conv [OF _ "1.prems"(2)])
       apply simp_all
      done
  next
    case False
    show ?thesis
      apply (subst G_layer.simps)
      apply (simp only: False if_False)
      apply (rule related_relu)
      apply (rule related_conv [OF H "1.prems"(2)])
       apply simp_all
      done
  qed
qed

section \<open>The whole network\<close>

lemma predict_eq:
  "predict p vars x =
   eval (feed_env (4 * nat (n_levels p)) x vars)
     (Squeeze (conv (last_layer p) (Read (C_weight p)) (Read (C_bias p)) (filter_length p) 1)
        [1])"
  by (simp add: predict_def construct_ufcnn_eq input_node_def)

lemma related_last_layer:
  assumes "agree_upto 1 t x x'"
  shows "\<exists>K. related (shape x ! 0) (shape x ! 1) K t
     (feed_env (4 * nat (n_levels p)) x vars) (feed_env (4 * nat (n_levels p)) x' vars)
     (last_layer p)"
proof -
  have x0: "related (shape x ! 0) (shape x ! 1) (shape x ! 2) t
     (feed_env (4 * nat (n_levels p)) x vars) (feed_env (4 * nat (n_levels p)) x' vars)
     (ExpandDims (input_node p) 1)"
    unfolding input_node_def by (rule related_input [OF assms])
  show ?thesis
  proof (cases "nat (n_levels p) = 0")
    case True
    then show ?thesis using x0 by (auto simp: last_layer_def)
  next
    case False
    have "related (shape x ! 0) (shape x ! 1) (nat (n_filters p)) t
       (feed_env (4 * nat (n_levels p)) x vars) (feed_env (4 * nat (n_levels p)) x' vars)
       (G_layer p (ExpandDims (input_node p) 1) 0)"
      by (rule related_G_layer [OF x0]) (simp add: feed_env_def)
    then show ?thesis using False by (auto simp: last_layer_def)
  qed
qed

lemma related_final_conv:
  assumes "agree_upto 1 t x x'"
  shows "related (shape x ! 0) (shape x ! 1) (nat (n_outputs p)) t
     (feed_env (4 * nat (n_levels p)) x vars) (feed_env (4 * nat (n_levels p)) x' vars)
     (conv (last_layer p) (Read (C_weight p)) (Read (C_bias p)) (filter_length p) 1)"
proof -
  obtain K where "related (shape x ! 0) (shape x ! 1) K t
     (feed_env (4 * nat (n_levels p)) x vars) (feed_env (4 * nat (n_levels p)) x' vars)
     (last_layer p)"
    using related_last_layer [OF assms] by blast
  then show ?thesis
    by (rule related_conv) (simp_all add: feed_env_def)
qed

lemma predict_Inr:
  assumes "predict p vars x = Inr out"
  obtains cv where
    "eval (feed_env (4 * nat (n_levels p)) x vars)
       (conv (last_layer p) (Read (C_weight p)) (Read (C_bias p)) (filter_length p) 1) = Inr cv"
    "tf_squeeze [1] cv = Inr out"
  using assms by (auto simp: predict_eq and_then_eq_Inr)

lemma eval_Read_conforms:
  "conforms (var_value e) v \<Longrightarrow> eval e (Read v) = Inr (var_value e (var_id v))"
  by (simp add: conforms_def Let_def)

lemma succeeds_conv:
  assumes x: "succeeds B T (nat cin) e xn"
    and cw: "conforms (var_value e) w" and cb: "conforms (var_value e) b"
    and w: "var_shape w = [1, flen, cin, cout]" and b: "var_shape b = [cout]"
    and fl: "1 \<le> flen" and d: "1 \<le> d"
  shows "succeeds B T (nat cout) e (conv xn (Read w) (Read b) flen d)"
proof -
  obtain xv where xv: "eval e xn = Inr xv" and sx: "shape xv = [B, 1, T, nat cin]"
    using x by (auto simp: succeeds_def)
  have "map int (shape (var_value e (var_id w))) = [1, flen, cin, cout]"
    using cw w by (simp add: conforms_def)
  then have sw: "shape (var_value e (var_id w)) = [1, nat flen, nat cin, nat cout]"
    and F: "int (nat flen) = flen"
    using map_int_eq4 [of "shape (var_value e (var_id w))" 1 flen cin cout] by simp_all
  have "map int (shape (var_value e (var_id b))) = [cout]"
    using cb b by (simp add: conforms_def)
  then have sb: "shape (var_value e (var_id b)) = [nat cout]" by (rule map_int_eq1)
  have "eval e (conv xn (Read w) (Read b) flen d) =
      Inr (causal_conv (nat d) xv (var_value e (var_id w)) (var_value e (var_id b)))"
    using eval_conv [OF xv sx eval_Read_conforms [OF cw] sw eval_Read_conforms [OF cb] sb F, of d]
      fl d by simp
  then show ?thesis by (simp add: succeeds_def sx sw)
qed

lemma succeeds_relu: "succeeds B T K e n \<Longrightarrow> succeeds B T K e (Relu n)"
  by (auto simp: succeeds_def)

lemma succeeds_concat:
  assumes "succeeds B T Ka e a" and "succeeds B T Kb e b"
  shows "succeeds B T (Ka + Kb) e (Concat 3 [a, b])"
proof -
  obtain av bv where av: "eval e a = Inr av" "shape av = [B, 1, T, Ka]"
    and bv: "eval e b = Inr bv" "shape bv = [B, 1, T, Kb]"
    using assms by (auto simp: succeeds_def)
  have "eval e (Concat 3 [a, b]) = tf_concat 3 [av, bv]"
    by (simp add: av bv del: tf_concat.simps)
  then show ?thesis
    unfolding tf_concat_channels [OF av(2) bv(2)]
    by (simp add: succeeds_def del: eval.simps)
qed

lemma succeeds_input:
  assumes "wf x" and "shape x = [B, T, C]" and "int C = k"
  shows "succeeds B T C (feed_env i x vars) (ExpandDims (Placeholder i [None, None, Some k]) 1)"
proof -
  have "eval (feed_env i x vars) (ExpandDims (Placeholder i [None, None, Some k]) 1) =
      Inr (x\<lparr>shape := [B, 1, T, C]\<rparr>)"
    unfolding eval_input using assms by blast
  then show ?thesis
    using assms by (simp add: succeeds_def wf_reshape del: eval.simps)
qed

lemma succeeds_H_layer:
  assumes x0: "succeeds B T (nat (n_inputs p)) e x0"
    and c: "\<And>k. k \<le> l \<Longrightarrow> conforms (var_value e) (H_weight p k) \<and> conforms (var_value e) (H_bias p k)"
    and fl: "1 \<le> filter_length p"
  shows "succeeds B T (nat (n_filters p)) e (H_layer p x0 l)"
  using c
proof (induction l)
  case 0
  show ?case
    unfolding H_layer.simps
    by (rule succeeds_relu, rule succeeds_conv [OF x0]) (simp_all add: 0 fl)
next
  case (Suc l)
  have d: "(1::int) \<le> 2 ^ Suc l" by (rule one_le_power) simp
  have "succeeds B T (nat (n_filters p)) e (H_layer p x0 l)"
    using Suc.prems by (intro Suc.IH) simp
  then show ?case
    unfolding H_layer.simps
    by (rule succeeds_relu [OF succeeds_conv [OF _ _ _ _ _ fl d]]) (simp_all add: Suc.prems)
qed

lemma succeeds_G_layer:
  assumes x0: "succeeds B T (nat (n_inputs p)) e x0"
    and c: "\<And>k. k < nat (n_levels p) \<Longrightarrow>
       conforms (var_value e) (H_weight p k) \<and> conforms (var_value e) (H_bias p k) \<and>
       conforms (var_value e) (G_weight p k) \<and> conforms (var_value e) (G_bias p k)"
    and fl: "1 \<le> filter_length p" and l: "l < nat (n_levels p)"
  shows "succeeds B T (nat (n_filters p)) e (G_layer p x0 l)"
  using assms
proof (induction p x0 l rule: G_layer.induct)
  case (1 p x0 l)
  have H: "succeeds B T (nat (n_filters p)) e (H_layer p x0 l)"
    using "1.prems" by (intro succeeds_H_layer) simp_all
  have cg: "conforms (var_value e) (G_weight p l)" "conforms (var_value e) (G_bias p l)"
    using "1.prems" by simp_all
  have d: "(1::int) \<le> 2 ^ Suc l" by (rule one_le_power) simp
  show ?case
  proof (cases "Suc l < nat (n_levels p)")
    case True
    have "succeeds B T (nat (n_filters p)) e (G_layer p x0 (Suc l))"
      using "1.prems" True by (intro "1.IH") simp_all
    then have "succeeds B T (nat (n_filters p) + nat (n_filters p)) e
        (Concat 3 [G_layer p x0 (Suc l), H_layer p x0 l])"
      using H by (rule succeeds_concat)
    moreover have "nat (n_filters p) + nat (n_filters p) = nat (2 * n_filters p)" by simp
    moreover have "int l \<noteq> n_levels p - 1" using True by simp
    ultimately show ?thesis
      apply (subst G_layer.simps)
      apply (simp only: True if_True)
      apply (rule succeeds_relu)
      apply (rule succeeds_conv [where cin = "2 * n_filters p", OF _ cg _ _ "1.prems"(3) d])
        apply simp_all
      done
  next
    case False
    then have "int l = n_levels p - 1" using "1.prems"(4) by simp
    then show ?thesis
      apply (subst G_layer.simps)
      apply (simp only: False if_False)
      apply (rule succeeds_relu)
      apply (rule succeeds_conv [OF H cg _ _ "1.prems"(3) d])
        apply simp_all
      done
  qed
qed

lemma conforms_all:
  assumes "list_all (conforms vars) (weights (construct_ufcnn p) @ biases (construct_ufcnn p))"
  shows "k < nat (n_levels p) \<Longrightarrow>
       conforms vars (H_weight p k) \<and> conforms vars (H_bias p k) \<and>
       conforms vars (G_weight p k) \<and> conforms vars (G_bias p k)"
    and "conforms vars (C_weight p)" and "conforms vars (C_bias p)"
  using assms by (simp_all add: construct_ufcnn_eq list_all_iff)

lemma predict_shape:
  assumes "predict p vars x = Inr out"
  shows "shape out = [shape x ! 0, shape x ! 1, nat (n_outputs p)] \<and> wf out"
proof -
  obtain cv where cv: "eval (feed_env (4 * nat (n_levels p)) x vars)
       (conv (last_layer p) (Read (C_weight p)) (Read (C_bias p)) (filter_length p) 1) = Inr cv"
    and sq: "tf_squeeze [1] cv = Inr out"
    using assms by (rule predict_Inr)
  have s: "shape cv = [shape x ! 0, 1, shape x ! 1, nat (n_outputs p)]" and w: "wf cv"
    using related_final_conv [OF agree_upto_refl [of 1 0 x], of p vars] cv
    by (simp_all add: related_def)
  show ?thesis
    using sq w by (simp add: tf_squeeze_1 [OF s], auto simp: wf_def s)
qed

lemma map_int_eq4_nonneg:
  "map int s = [a, b, c, d] \<Longrightarrow> int (nat c) = c"
  using map_int_eq4 [of s a b c d]
  by (cases s; cases "tl s"; cases "tl (tl s)"; cases "tl (tl (tl s))") auto

section \<open>The height axis\<close>

lemma and_then_eq_Inl:
  "and_then r f = Inl err \<longleftrightarrow> r = Inl err \<or> (\<exists>u. r = Inr u \<and> f u = Inl err)"
  by (cases r) simp_all

lemma all_results_Inl:
  "all_results rs = Inl err \<Longrightarrow> Inl err \<in> set rs"
  by (induction rs) (auto simp: and_then_eq_Inl)

lemma tf_concat_Inl: "tf_concat ax ts = Inl err \<Longrightarrow> err = ConcatError"
  by (induction ax ts rule: tf_concat.induct)
    (auto simp: and_then_eq_Inl concat2_def split: if_splits)

lemma eval_squeeze_free: "squeeze_free n \<Longrightarrow> eval e n \<noteq> Inl SqueezeError"
proof (induction n)
  case (Concat ax xs)
  show ?case
  proof
    assume "eval e (Concat ax xs) = Inl SqueezeError"
    then have "all_results (map (eval e) xs) = Inl SqueezeError \<or>
        (\<exists>ts. all_results (map (eval e) xs) = Inr ts \<and> tf_concat ax ts = Inl SqueezeError)"
      by (simp add: and_then_eq_Inl)
    then show False
    proof (elim disjE exE conjE)
      assume "all_results (map (eval e) xs) = Inl SqueezeError"
      then obtain x where "x \<in> set xs" "eval e x = Inl SqueezeError"
        using all_results_Inl [of "map (eval e) xs" SqueezeError] by auto
      then show False using Concat by (auto simp: list_all_iff)
    next
      fix ts
      assume "tf_concat ax ts = Inl SqueezeError"
      then show False using tf_concat_Inl [of ax ts SqueezeError] by simp
    qed
  qed
qed (auto simp: and_then_eq_Inl tf_expand_dims_def tf_pad_def conv2d_def atrous_conv2d_def
    valid_conv_def tf_add_def Let_def split: if_splits option.splits)

lemma squeeze_free_conv [simp]:
  "squeeze_free (conv x w b flen d) = (squeeze_free x \<and> squeeze_free w \<and> squeeze_free b)"
  by (auto simp: conv_def Let_def)

lemma squeeze_free_H_layer: "squeeze_free x0 \<Longrightarrow> squeeze_free (H_layer p x0 l)"
  by (induction l) simp_all

lemma squeeze_free_G_layer: "squeeze_free x0 \<Longrightarrow> squeeze_free (G_layer p x0 l)"
proof (induction p x0 l rule: G_layer.induct)
  case (1 p x0 l)
  then show ?case
    by (subst G_layer.simps) (simp add: squeeze_free_H_layer)
qed

lemma squeeze_free_last_layer: "squeeze_free (last_layer p)"
  by (simp add: last_layer_def input_node_def squeeze_free_G_layer)

lemma heights_input:
  "heights_one (feed_env i x vars) (ExpandDims (Placeholder i [None, None, Some k]) 1)"
  unfolding heights_one_def
proof (intro ballI allI impI)
  fix m v
  assume "m \<in> set (activations (ExpandDims (Placeholder i [None, None, Some k]) 1))"
    and ev: "eval (feed_env i x vars) m = Inr v"
  then have "eval (feed_env i x vars) (ExpandDims (Placeholder i [None, None, Some k]) 1) = Inr v"
    by simp
  then obtain B T C where "v = x\<lparr>shape := [B, 1, T, C]\<rparr>"
    unfolding eval_input by blast
  then show "length (shape v) = 4 \<and> shape v ! 1 = 1" by simp
qed

lemma heights_conv:
  assumes h: "heights_one e xn" and rel: "related B T C t e e xn"
    and w: "var_shape w = [1, flen, cin, cout]" and b: "var_shape b = [cout]"
  shows "heights_one e (conv xn (Read w) (Read b) flen d)"
  unfolding heights_one_def
proof (intro ballI allI impI)
  fix m v
  assume m: "m \<in> set (activations (conv xn (Read w) (Read b) flen d))"
    and ev: "eval e m = Inr v"
  define pads where "pads = [(0, 0), (0, 0), (d * (flen - 1), 0), (0::int, 0::int)]"
  define op where "op = (if d = 1 then Conv2D (Pad xn pads) (Read w)
      else AtrousConv2D (Pad xn pads) (Read w) d)"
  have cv: "conv xn (Read w) (Read b) flen d = Add op (Read b)"
    by (simp add: conv_def Let_def op_def pads_def)
  have "m = Add op (Read b) \<or> m = op \<or> m = Pad xn pads \<or> m \<in> set (activations xn)"
    using m unfolding cv by (auto simp: op_def)
  moreover have sx: "shape xv = [B, 1, T, C]" if "eval e xn = Inr xv" for xv
    using rel that by (simp add: related_def)
  have pad: "shape pv = [B, 1, T + nat (d * (flen - 1)), C]"
    if pe: "eval e (Pad xn pads) = Inr pv" for pv
  proof -
    obtain xv where xv: "eval e xn = Inr xv" and pv: "tf_pad pads xv = Inr pv"
      using pe by (auto simp: and_then_eq_Inr)
    show ?thesis
      using pv unfolding pads_def tf_pad_time [OF sx [OF xv]]
      by (auto split: if_splits)
  qed
  have opr: "length (shape ov) = 4 \<and> shape ov ! 1 = 1" if oe: "eval e op = Inr ov" for ov
  proof -
    obtain pv wv r where pv: "eval e (Pad xn pads) = Inr pv" and wv: "eval e (Read w) = Inr wv"
      and ov: "valid_conv r pv wv = Inr ov"
      using oe by (auto simp: op_def and_then_eq_Inr conv2d_def atrous_conv2d_def
          split: if_splits simp del: eval.simps(2,4))
    have "map int (shape wv) = var_shape w"
      using wv unfolding eval_Read_Inr by blast
    then have "map int (shape wv) = [1, flen, cin, cout]"
      using w by simp
    then have sw: "shape wv = [1, nat flen, nat cin, nat cout]"
      using map_int_eq4 [of "shape wv" 1 flen cin cout] by simp
    show ?thesis
      using ov unfolding valid_conv_filter [OF pad [OF pv] sw]
      by (auto split: if_splits)
  qed
  moreover have "length (shape v) = 4 \<and> shape v ! 1 = 1" if "m = Add op (Read b)"
    using related_conv [OF rel refl w b, of d] ev that
    by (simp add: related_def cv [symmetric] del: eval.simps)
  ultimately show "length (shape v) = 4 \<and> shape v ! 1 = 1"
    using ev h pad opr by (auto simp: heights_one_def)
qed

lemma heights_relu:
  assumes "heights_one e n" and "related B T K t e e n"
  shows "heights_one e (Relu n)"
  using assms by (auto simp: heights_one_def related_def and_then_eq_Inr)

lemma heights_concat:
  assumes "heights_one e a" and "heights_one e b"
    and "related B T Ka t e e a" and "related B T Kb t e e b"
  shows "heights_one e (Concat 3 [a, b])"
  unfolding heights_one_def
proof (intro ballI allI impI)
  fix m v
  assume m: "m \<in> set (activations (Concat 3 [a, b]))" and ev: "eval e m = Inr v"
  have "m = Concat 3 [a, b] \<or> m \<in> set (activations a) \<or> m \<in> set (activations b)"
    using m by auto
  moreover have "length (shape v) = 4 \<and> shape v ! 1 = 1" if "m = Concat 3 [a, b]"
    using related_concat [OF assms(3,4)] ev that by (simp add: related_def del: eval.simps)
  ultimately show "length (shape v) = 4 \<and> shape v ! 1 = 1"
    using ev assms(1,2) by (auto simp: heights_one_def)
qed

lemma heights_H_layer:
  assumes "heights_one e x0" and "related B T C t e e x0"
  shows "heights_one e (H_layer p x0 l)"
proof (induction l)
  case 0
  show ?case
    unfolding H_layer.simps
    by (rule heights_relu [OF heights_conv [OF assms] related_conv [OF assms(2) refl]])
      simp_all
next
  case (Suc l)
  note r = related_H_layer [OF assms(2) refl, of p l]
  show ?case
    unfolding H_layer.simps
    by (rule heights_relu [OF heights_conv [OF Suc r] related_conv [OF r refl]]) simp_all
qed

lemma heights_G_layer:
  assumes "heights_one e x0" and "related B T C t e e x0"
  shows "heights_one e (G_layer p x0 l)"
  using assms
proof (induction p x0 l rule: G_layer.induct)
  case (1 p x0 l)
  note rH = related_H_layer [OF "1.prems"(2) refl, of p l]
  note hH = heights_H_layer [OF "1.prems", of p l]
  show ?case
  proof (cases "Suc l < nat (n_levels p)")
    case True
    note rG = related_G_layer [OF "1.prems"(2) refl, of p "Suc l"]
    note hG = "1.IH" [OF True "1.prems"]
    note rc = related_concat [OF rG rH]
    note hc = heights_concat [OF hG hH rG rH]
    show ?thesis
      apply (subst G_layer.simps)
      apply (simp only: True if_True)
      apply (rule heights_relu [OF heights_conv [OF hc rc] related_conv [OF rc refl]])
         apply simp_all
      done
  next
    case False
    show ?thesis
      apply (subst G_layer.simps)
      apply (simp only: False if_False)
      apply (rule heights_relu [OF heights_conv [OF hH rH] related_conv [OF rH refl]])
         apply simp_all
      done
  qed
qed

lemma heights_last_layer:
  "heights_one (feed_env (4 * nat (n_levels p)) x vars) (last_layer p)"
proof -
  have x0: "related (shape x ! 0) (shape x ! 1) (shape x ! 2) 0
     (feed_env (4 * nat (n_levels p)) x vars) (feed_env (4 * nat (n_levels p)) x vars)
     (ExpandDims (input_node p) 1)"
    unfolding input_node_def by (rule related_input [OF agree_upto_refl])
  have h0: "heights_one (feed_env (4 * nat (n_levels p)) x vars) (ExpandDims (input_node p) 1)"
    unfolding input_node_def by (rule heights_input)
  show ?thesis
  proof (cases "nat (n_levels p) = 0")
    case True
    then have "last_layer p = ExpandDims (input_node p) 1" by (simp add: last_layer_def)
    then show ?thesis by (simp only: h0)
  next
    case False
    then have "last_layer p = G_layer p (ExpandDims (input_node p) 1) 0"
      by (simp add: last_layer_def)
    then show ?thesis by (simp only: heights_G_layer [OF h0 x0])
  qed
qed

lemma heights_final_conv:
  "heights_one (feed_env (4 * nat (n_levels p)) x vars)
     (conv (last_layer p) (Read (C_weight p)) (Read (C_bias p)) (filter_length p) 1)"
proof -
  obtain K where "related (shape x ! 0) (shape x ! 1) K 0
     (feed_env (4 * nat (n_levels p)) x vars) (feed_env (4 * nat (n_levels p)) x vars)
     (last_layer p)"
    using related_last_layer [OF agree_upto_refl [of 1 0 x], of p vars] by blast
  then show ?thesis
    by (rule heights_conv [OF heights_last_layer]) simp_all
qed

lemma predict_no_squeeze_error: "predict p vars x \<noteq> Inl SqueezeError"
proof
  assume "predict p vars x = Inl SqueezeError"
  then have "eval (feed_env (4 * nat (n_levels p)) x vars)
       (conv (last_layer p) (Read (C_weight p)) (Read (C_bias p)) (filter_length p) 1) =
       Inl SqueezeError \<or>
     (\<exists>cv. eval (feed_env (4 * nat (n_levels p)) x vars)
       (conv (last_layer p) (Read (C_weight p)) (Read (C_bias p)) (filter_length p) 1) = Inr cv \<and>
       tf_squeeze [1] cv = Inl SqueezeError)"
    by (simp add: predict_eq and_then_eq_Inl)
  then show False
  proof (elim disjE exE conjE)
    assume "eval (feed_env (4 * nat (n_levels p)) x vars)
       (conv (last_layer p) (Read (C_weight p)) (Read (C_bias p)) (filter_length p) 1) =
       Inl SqueezeError"
    moreover have "squeeze_free
       (conv (last_layer p) (Read (C_weight p)) (Read (C_bias p)) (filter_length p) 1)"
      by (simp add: squeeze_free_last_layer)
    ultimately show False using eval_squeeze_free by blast
  next
    fix cv
    assume cv: "eval (feed_env (4 * nat (n_levels p)) x vars)
       (conv (last_layer p) (Read (C_weight p)) (Read (C_bias p)) (filter_length p) 1) = Inr cv"
      and sq: "tf_squeeze [1] cv = Inl SqueezeError"
    have s: "shape cv = [shape x ! 0, 1, shape x ! 1, nat (n_outputs p)]"
      using related_final_conv [OF agree_upto_refl [of 1 0 x], of p vars] cv
      by (simp add: related_def)
    show False using sq by (simp add: tf_squeeze_1 [OF s])
  qed
qed

section \<open>The loss and the softmax, unfolded\<close>










lemma softmax_3d:
  assumes wx: "wf x" and sx: "shape x = [B, T, K]" and K: "1 \<le> K"
  shows "softmax x =
    Inr ((build [B * T, K]
           (\<lambda>idx. exp (elem_at (x\<lparr>shape := [B * T, K]\<rparr>) idx) /
                  sum_list (map (\<lambda>k. exp (elem_at (x\<lparr>shape := [B * T, K]\<rparr>) [idx ! 0, k]))
                    [0..<K])))\<lparr>shape := [B, T, K]\<rparr>)"
proof -
  have r1: "tf_reshape [- 1, int K] x = Inr (x\<lparr>shape := [B * T, K]\<rparr>)"
    using K by (simp add: tf_reshape_def sx Let_def nat_mult_distrib)
  have r2: "tf_reshape [int B, int T, int K] (build [B * T, K] f) =
      Inr ((build [B * T, K] f)\<lparr>shape := [B, T, K]\<rparr>)" for f :: "nat list \<Rightarrow> real"
    by (simp add: tf_reshape_def Let_def)
  show ?thesis
    by (simp add: softmax_def sx Let_def r1 nn_softmax_def r2)
qed

lemma flat_row_less: "b < B \<Longrightarrow> t < T \<Longrightarrow> b * T + t < B * (T::nat)"
proof -
  assume b: "b < B" and t: "t < T"
  have "b * T + t < b * T + T" using t by simp
  also have "\<dots> = Suc b * T" by simp
  also have "\<dots> \<le> B * T" using b by (intro mult_le_mono1) simp
  finally show ?thesis .
qed

lemma elem_at_flat_rows:
  assumes "b < B" and "t < T" and "k < K"
  shows "elem_at ((build [B * T, K] f)\<lparr>shape := [B, T, K]\<rparr>) [b, t, k] = f [b * T + t, k]"
proof -
  have v: "valid_index [B * T, K] [b * T + t, k]"
    using assms flat_row_less [of b B t T] by simp
  have "elem_at ((build [B * T, K] f)\<lparr>shape := [B, T, K]\<rparr>) [b, t, k] =
        elem_at (build [B * T, K] f) [b * T + t, k]"
    by (simp add: elem_at_def algebra_simps)
  then show ?thesis by (simp only: elem_at_build [OF v])
qed

lemma elem_at_flat_input:
  assumes "shape x = [B, T, K]"
  shows "elem_at (x\<lparr>shape := [B * T, K]\<rparr>) [b * T + t, k] = elem_at x [b, t, k]"
  by (simp add: elem_at_def assms algebra_simps)

lemma softmax_3d_entries:
  assumes wx: "wf x" and sx: "shape x = [B, T, K]" and K: "1 \<le> K"
  obtains out where "softmax x = Inr out" "shape out = [B, T, K]" "wf out"
    "\<And>b t k. b < B \<Longrightarrow> t < T \<Longrightarrow> k < K \<Longrightarrow>
       elem_at out [b, t, k] =
       exp (elem_at x [b, t, k]) / sum_list (map (\<lambda>j. exp (elem_at x [b, t, j])) [0..<K])"
proof
  let ?f = "\<lambda>idx. exp (elem_at (x\<lparr>shape := [B * T, K]\<rparr>) idx) /
      sum_list (map (\<lambda>k. exp (elem_at (x\<lparr>shape := [B * T, K]\<rparr>) [idx ! 0, k])) [0..<K])"
  let ?out = "(build [B * T, K] ?f)\<lparr>shape := [B, T, K]\<rparr>"
  show "softmax x = Inr ?out" by (rule softmax_3d [OF assms])
  show "shape ?out = [B, T, K]" by simp
  show "wf ?out" by (simp add: wf_def build_def length_indices)
  show "elem_at ?out [b, t, k] =
       exp (elem_at x [b, t, k]) / sum_list (map (\<lambda>j. exp (elem_at x [b, t, j])) [0..<K])"
    if "b < B" "t < T" "k < K" for b t k
    by (simp add: elem_at_flat_rows [OF that] elem_at_flat_input [OF sx])
qed

lemma softmax_no_classes:
  assumes "shape x = [B, T, 0]"
  shows "softmax x = Inl ReshapeError"
  by (simp add: softmax_def assms tf_reshape_def Let_def)

lemma sum_exp_pos: "1 \<le> K \<Longrightarrow> 0 < sum_list (map (\<lambda>j. exp (g j :: real)) [0..<K])"
proof -
  assume "1 \<le> K"
  then obtain K' where K: "K = Suc K'" by (cases K) auto
  have "0 \<le> sum_list (map (\<lambda>j. exp (g j)) [0..<K'])"
    by (rule sum_list_nonneg) auto
  then show ?thesis by (simp add: K add_nonneg_pos)
qed

lemma softmax_shape:
  assumes "softmax x = Inr out"
  shows "shape out = shape x"
proof -
  have nn: "\<not> list_ex (\<lambda>d. d < - 1) (map int (shape x))"
    and f: "filter (\<lambda>d. d = - 1) (map int (shape x)) = []"
    and m: "- 1 \<notin> set (map int (shape x))"
    by (auto simp: list_ex_iff filter_empty_conv)
  obtain sf where "tf_reshape (map int (shape x)) sf = Inr out"
    using assms by (auto simp: softmax_def Let_def and_then_eq_Inr split: if_splits)
  then show ?thesis
    unfolding tf_reshape_def Let_def using nn f m
    by (auto split: if_splits simp: comp_def)
qed

section \<open>The synthesis layers in the built graph\<close>

lemma expanded_input_eq: "expanded_input p = ExpandDims (input_node p) 1"
  by (simp add: expanded_input_def construct_ufcnn_eq)

lemma analysis_outputs_nth:
  "l < nat (n_levels p) \<Longrightarrow> analysis_outputs p ! l = H_layer p (expanded_input p) l"
  by (simp add: analysis_outputs_def analysis_eq)

lemma self_in_activations:
  "Relu z \<in> set (activations (Relu z))"
  by simp

lemma activations_trans:
  "m \<in> set (activations n) \<Longrightarrow> k \<in> set (activations m) \<Longrightarrow> k \<in> set (activations n)"
  by (induction n) auto

lemma G_layer_is_Relu: "\<exists>z. G_layer p x0 l = Relu z"
  by (subst G_layer.simps) simp

lemma G_layer_in_self: "G_layer p x0 l \<in> set (activations (G_layer p x0 l))"
  using G_layer_is_Relu [of p x0 l] by auto

lemma activations_conv:
  "set (activations x) \<subseteq> set (activations (conv x w b flen d))"
  by (auto simp: conv_def Let_def)

lemma G_layer_Suc_in_activations:
  assumes "Suc l < nat (n_levels p)"
  shows "G_layer p x0 (Suc l) \<in> set (activations (G_layer p x0 l))"
proof -
  have "G_layer p x0 (Suc l) \<in> set (activations (Concat 3 [G_layer p x0 (Suc l), H_layer p x0 l]))"
    using G_layer_in_self [of p x0 "Suc l"] by simp
  then have "G_layer p x0 (Suc l) \<in> set (activations
      (conv (Concat 3 [G_layer p x0 (Suc l), H_layer p x0 l])
         (Read (G_weight p l)) (Read (G_bias p l)) (filter_length p) (2 ^ Suc l)))"
    using activations_conv by blast
  then show ?thesis
    using assms by (subst (2) G_layer.simps) simp
qed

lemma G_layer_in_activations:
  "l < nat (n_levels p) \<Longrightarrow> G_layer p x0 l \<in> set (activations (G_layer p x0 0))"
proof (induction l)
  case 0
  show ?case by (rule G_layer_in_self)
next
  case (Suc l)
  then have "G_layer p x0 l \<in> set (activations (G_layer p x0 0))" by simp
  then show ?case
    using G_layer_Suc_in_activations [OF Suc.prems] by (rule activations_trans)
qed

lemma G_layer_input_channels:
  assumes lv: "1 \<le> n_levels p" and l: "l < nat (n_levels p)"
  shows "var_shape (G_weights (all_variables p) ! l) ! 2 =
           (if int l = n_levels p - 1 then n_filters p else 2 * n_filters p) \<and>
         G_layer p x0 l =
           Relu (conv
             (if int l = n_levels p - 1 then H_layer p x0 l
              else Concat 3 [G_layer p x0 (Suc l), H_layer p x0 l])
             (Read (G_weights (all_variables p) ! l)) (Read (G_biases (all_variables p) ! l))
             (filter_length p) (2 * 2 ^ l)) \<and>
         (\<forall>v. eval (feed_env (4 * nat (n_levels p)) x vars)
                (G_layer p (ExpandDims (input_node p) 1) l) = Inr v \<longrightarrow>
            (\<exists>u. eval (feed_env (4 * nat (n_levels p)) x vars)
                (if int l = n_levels p - 1 then H_layer p (ExpandDims (input_node p) 1) l
                 else Concat 3 [G_layer p (ExpandDims (input_node p) 1) (Suc l),
                                H_layer p (ExpandDims (input_node p) 1) l]) = Inr u \<and>
               length (shape u) = 4 \<and>
               int (shape u ! 3) =
                 (if int l = n_levels p - 1 then n_filters p else 2 * n_filters p)))"
proof -
  define e where "e = feed_env (4 * nat (n_levels p)) x vars"
  define xi where "xi = ExpandDims (input_node p) 1"
  define cin where "cin = (if int l = n_levels p - 1 then n_filters p else 2 * n_filters p)"
  have deep: "int l = n_levels p - 1 \<longleftrightarrow> \<not> Suc l < nat (n_levels p)"
    using l by auto
  have gw: "G_weights (all_variables p) ! l = G_weight p l"
    and gb: "G_biases (all_variables p) ! l = G_bias p l"
    using l by (simp_all add: all_variables_eq)
  have layer: "G_layer p z l =
      Relu (conv
        (if int l = n_levels p - 1 then H_layer p z l
         else Concat 3 [G_layer p z (Suc l), H_layer p z l])
        (Read (G_weight p l)) (Read (G_bias p l)) (filter_length p) (2 * 2 ^ l))" for z
    by (subst G_layer.simps) (simp add: deep)
  have x0: "related (shape x ! 0) (shape x ! 1) (shape x ! 2) 0 e e xi"
    unfolding e_def xi_def input_node_def by (rule related_input [OF agree_upto_refl])
  have rin: "\<exists>K. related (shape x ! 0) (shape x ! 1) K 0 e e
       (if int l = n_levels p - 1 then H_layer p xi l
        else Concat 3 [G_layer p xi (Suc l), H_layer p xi l])"
  proof (cases "int l = n_levels p - 1")
    case True
    show ?thesis
      unfolding if_P [OF True] using related_H_layer [OF x0 refl, of p l] by blast
  next
    case False
    show ?thesis
      unfolding if_not_P [OF False]
      using related_concat [OF related_G_layer [OF x0 refl, of p "Suc l"]
          related_H_layer [OF x0 refl, of p l]]
      by blast
  qed
  have sem: "\<exists>u. eval e
        (if int l = n_levels p - 1 then H_layer p xi l
         else Concat 3 [G_layer p xi (Suc l), H_layer p xi l]) = Inr u \<and>
        length (shape u) = 4 \<and> int (shape u ! 3) = cin"
    if ev: "eval e (G_layer p xi l) = Inr v" for v
  proof -
    let ?inp = "if int l = n_levels p - 1 then H_layer p xi l
         else Concat 3 [G_layer p xi (Suc l), H_layer p xi l]"
    obtain K where rel: "related (shape x ! 0) (shape x ! 1) K 0 e e ?inp"
      using rin by blast
    obtain cv where cv: "eval e
        (conv ?inp (Read (G_weight p l)) (Read (G_bias p l)) (filter_length p) (2 * 2 ^ l)) =
        Inr cv"
      using ev unfolding layer by (auto simp: and_then_eq_Inr simp del: eval.simps(2,9))
    obtain u where u: "eval e ?inp = Inr u" using cv by (rule eval_conv_InrD)
    have su: "shape u = [shape x ! 0, 1, shape x ! 1, K]"
      using rel u by (simp add: related_def)
    have ws: "var_shape (G_weight p l) = [1, filter_length p, cin, n_filters p]"
      by (simp add: cin_def)
    have K: "K = nat cin"
      using eval_conv_Inr [OF cv ws _ u su] by simp
    obtain wv where "eval e (Read (G_weight p l)) = Inr wv" using cv by (rule eval_conv_InrD)
    then have "map int (shape wv) = [1, filter_length p, cin, n_filters p]"
      unfolding eval_Read_Inr ws [symmetric] by blast
    then have "int (nat cin) = cin" by (rule map_int_eq4_nonneg)
    then show ?thesis using u su K by auto
  qed
  show ?thesis
    unfolding gw gb
  proof (intro conjI allI impI)
    show "var_shape (G_weight p l) ! 2 =
        (if int l = n_levels p - 1 then n_filters p else 2 * n_filters p)"
      by simp
    show "G_layer p x0 l =
      Relu (conv
        (if int l = n_levels p - 1 then H_layer p x0 l
         else Concat 3 [G_layer p x0 (Suc l), H_layer p x0 l])
        (Read (G_weight p l)) (Read (G_bias p l)) (filter_length p) (2 * 2 ^ l))"
      by (rule layer)
  next
    fix v
    assume "eval (feed_env (4 * nat (n_levels p)) x vars)
        (G_layer p (ExpandDims (input_node p) 1) l) = Inr v"
    then show "\<exists>u. eval (feed_env (4 * nat (n_levels p)) x vars)
                (if int l = n_levels p - 1 then H_layer p (ExpandDims (input_node p) 1) l
                 else Concat 3 [G_layer p (ExpandDims (input_node p) 1) (Suc l),
                                H_layer p (ExpandDims (input_node p) 1) l]) = Inr u \<and>
               length (shape u) = 4 \<and>
               int (shape u ! 3) =
                 (if int l = n_levels p - 1 then n_filters p else 2 * n_filters p)"
      by (rule sem [unfolded e_def xi_def cin_def])
  qed
qed

lemma weights_nth_G:
  assumes "l < nat (n_levels p)"
  shows "weights (construct_ufcnn p) ! (nat (n_levels p) + l) = G_weights (all_variables p) ! l"
    and "biases (construct_ufcnn p) ! (nat (n_levels p) + l) = G_biases (all_variables p) ! l"
  using assms by (simp_all add: construct_ufcnn_eq all_variables_eq nth_append)

lemma y_hat_reads_synthesis:
  assumes "1 \<le> n_levels p"
  shows "y_hat (construct_ufcnn p) =
      Squeeze (conv (G_layer p (expanded_input p) 0)
        (Read (last (weights (construct_ufcnn p)))) (Read (last (biases (construct_ufcnn p))))
        (filter_length p) 1) [1]"
    and "fst (synthesis p (analysis p (expanded_input p))) = G_layer p (expanded_input p) 0"
  using assms
  by (simp_all add: expanded_input_eq construct_ufcnn_eq last_layer_def synthesis_analysis_eq)

section \<open>The returned lists of variables\<close>

text \<open>
  Claim C4. For a non-negative number of levels, the lists \<open>weights\<close> and
  \<open>biases\<close> returned by \<open>construct_ufcnn\<close> each have
  \<open>2 * n_levels + 1\<close> entries: first the \<open>n_levels\<close> entries of the H layers,
  in the order of the levels, then the \<open>n_levels\<close> entries of the G layers, then the
  entry of the final convolution, which is the one the node \<open>y_hat\<close> reads.
\<close>

theorem weights_biases_order:
  assumes "0 \<le> n_levels p"
  shows "int (length (weights (construct_ufcnn p))) = 2 * n_levels p + 1 \<and>
         int (length (biases (construct_ufcnn p))) = 2 * n_levels p + 1 \<and>
         weights (construct_ufcnn p) =
           H_weights (all_variables p) @ G_weights (all_variables p) @ [C_weight p] \<and>
         biases (construct_ufcnn p) =
           H_biases (all_variables p) @ G_biases (all_variables p) @ [C_bias p] \<and>
         int (length (H_weights (all_variables p))) = n_levels p \<and>
         int (length (G_weights (all_variables p))) = n_levels p \<and>
         int (length (H_biases (all_variables p))) = n_levels p \<and>
         int (length (G_biases (all_variables p))) = n_levels p \<and>
         y_hat (construct_ufcnn p) =
           Squeeze (conv (last_layer p) (Read (last (weights (construct_ufcnn p))))
             (Read (last (biases (construct_ufcnn p)))) (filter_length p) 1) [1]"
  using assms by (simp add: construct_ufcnn_eq all_variables_eq)

theorem weights_biases_order_witness:
  "0 \<le> n_levels (default_params\<lparr>n_levels := 2\<rparr>) \<and>
   length (weights (construct_ufcnn (default_params\<lparr>n_levels := 2\<rparr>))) = 5 \<and>
   length (biases (construct_ufcnn (default_params\<lparr>n_levels := 2\<rparr>))) = 5 \<and>
   length (H_weights (all_variables (default_params\<lparr>n_levels := 2\<rparr>))) = 2 \<and>
   length (G_weights (all_variables (default_params\<lparr>n_levels := 2\<rparr>))) = 2"
  using weights_biases_order [of "default_params\<lparr>n_levels := 2\<rparr>"]
  by (simp add: default_params_def)

section \<open>The dilation of the layers\<close>

text \<open>
  Claim C2 says that the synthesis layer of a level uses the dilation of the analysis
  layer of that level. The analysis layers do use 1, 2, 4, ... (\<open>H_layer_dilation\<close>),
  but the synthesis layer of level \<open>l\<close> uses \<open>2 * 2 ^ l\<close>, twice the dilation of
  the analysis layer of its level (\<open>G_layer_dilation\<close>): the variable
  \<open>dilation\<close> is doubled once more after the last analysis layer, and the third
  loop starts from that value. The graph for one level, with all other parameters at
  their defaults, shows it: the analysis layer is a convolution of dilation 1 and the
  synthesis layer one of dilation 2.
\<close>

theorem one_level_graph:
  "y_hat (construct_ufcnn default_params) =
   Squeeze
     (conv
        (Relu (conv
           (Relu (conv (ExpandDims (Placeholder 4 [None, None, Some 1]) 1)
              (Read (Variable 0 [1, 5, 1, 10] (Some 0))) (Read (Variable 1 [10] (Some 0)))
              5 1))
           (Read (Variable 2 [1, 5, 10, 10] (Some 0))) (Read (Variable 3 [10] (Some 0)))
           5 2))
        (Read (Variable 5 [1, 5, 10, 1] (Some 0))) (Read (Variable 6 [1] (Some 0))) 5 1)
     [1]"
  by (simp add: construct_ufcnn_eq default_params_def last_layer_def input_node_def
      G_layer.simps C_weight_def C_bias_def H_weight_def H_bias_def G_weight_def G_bias_def
      numeral_2_eq_2)

section \<open>Causality\<close>

text \<open>
  Claim C1. For every parameterization, every value of the variables and every two
  inputs of the same shape that agree at all time positions up to \<open>t\<close> (and may
  differ anywhere after \<open>t\<close>), two predictions that return agree at all time
  positions up to \<open>t\<close>, and so at every time position before \<open>t\<close>: an input
  value at a later time never changes an output value at an earlier time. The entries
  may be of any type with a zero, a sum, a product and an order.
\<close>

theorem causality:
  assumes ag: "agree_upto 1 t x x'"
    and out: "predict p vars x = Inr out" and out': "predict p vars x' = Inr out'"
  shows "agree_upto 1 t out out' \<and>
    (\<forall>idx. valid_index (shape out) idx \<and> idx ! 1 < t \<longrightarrow> elem_at out idx = elem_at out' idx)"
proof -
  obtain cv where cv: "eval (feed_env (4 * nat (n_levels p)) x vars)
       (conv (last_layer p) (Read (C_weight p)) (Read (C_bias p)) (filter_length p) 1) = Inr cv"
    and sq: "tf_squeeze [1] cv = Inr out"
    using out by (rule predict_Inr)
  obtain cv' where cv': "eval (feed_env (4 * nat (n_levels p)) x' vars)
       (conv (last_layer p) (Read (C_weight p)) (Read (C_bias p)) (filter_length p) 1) = Inr cv'"
    and sq': "tf_squeeze [1] cv' = Inr out'"
    using out' by (rule predict_Inr)
  have s: "shape cv = [shape x ! 0, 1, shape x ! 1, nat (n_outputs p)]"
    and s': "shape cv' = [shape x ! 0, 1, shape x ! 1, nat (n_outputs p)]"
    and a: "agree_upto 2 t cv cv'"
    using related_final_conv [OF ag, of p vars] cv cv' by (simp_all add: related_def)
  have o: "out = cv\<lparr>shape := [shape x ! 0, shape x ! 1, nat (n_outputs p)]\<rparr>"
    and o': "out' = cv'\<lparr>shape := [shape x ! 0, shape x ! 1, nat (n_outputs p)]\<rparr>"
    using sq sq' by (simp_all add: tf_squeeze_1 [OF s] tf_squeeze_1 [OF s'])
  have "agree_upto 1 t out out'"
    unfolding o o' by (rule agree_squeeze [OF s a])
  then show ?thesis
    by (auto simp: agree_upto_iff)
qed

theorem causality_witness:
  "agree_upto 1 1 \<lparr>shape = [1, 4, 1], elems = [1, 2, 3, 4 :: int]\<rparr>
     \<lparr>shape = [1, 4, 1], elems = [1, 2, - 3, 9]\<rparr> \<and>
   predict example_params example_vars \<lparr>shape = [1, 4, 1], elems = [1, 2, 3, 4]\<rparr> =
     Inr \<lparr>shape = [1, 4, 2], elems = [2, 7, 8, 9, 19, 12, 36, 15]\<rparr> \<and>
   predict example_params example_vars \<lparr>shape = [1, 4, 1], elems = [1, 2, - 3, 9]\<rparr> =
     Inr \<lparr>shape = [1, 4, 2], elems = [2, 7, 8, 9, 9, 2, 24, 23]\<rparr> \<and>
   agree_upto 1 1 \<lparr>shape = [1, 4, 2], elems = [2, 7, 8, 9, 19, 12, 36, 15 :: int]\<rparr>
     \<lparr>shape = [1, 4, 2], elems = [2, 7, 8, 9, 9, 2, 24, 23]\<rparr>"
proof -
  have a: "agree_upto 1 1 \<lparr>shape = [1, 4, 1], elems = [1, 2, 3, 4 :: int]\<rparr>
     \<lparr>shape = [1, 4, 1], elems = [1, 2, - 3, 9]\<rparr>"
    by code_simp
  have b: "predict example_params example_vars \<lparr>shape = [1, 4, 1], elems = [1, 2, 3, 4]\<rparr> =
     Inr \<lparr>shape = [1, 4, 2], elems = [2, 7, 8, 9, 19, 12, 36, 15]\<rparr>"
    by code_simp
  have c: "predict example_params example_vars \<lparr>shape = [1, 4, 1], elems = [1, 2, - 3, 9]\<rparr> =
     Inr \<lparr>shape = [1, 4, 2], elems = [2, 7, 8, 9, 9, 2, 24, 23]\<rparr>"
    by code_simp
  from causality [OF a b c] a b c show ?thesis by blast
qed

section \<open>The shape of the prediction\<close>

text \<open>
  Claim C6. Let the network be built with a filter length of at least 1 and with at
  least one level (or with as many inputs as filters, the only case in which a network
  without levels can be built), and let every variable hold a tensor of its declared
  shape. Then for every well-formed input of shape (batch_size, n_samples, n_inputs)
  the prediction returns, and the output has the shape (batch_size, n_samples,
  n_outputs): the batch and time sizes of the input, \<open>n_outputs\<close> on the last
  axis, and no height axis. Whenever a prediction returns at all, its shape is this one
  (\<open>predict_shape\<close>).
\<close>

theorem output_shape:
  assumes wx: "wf x" and sx: "shape x = [B, T, C]" and C: "int C = n_inputs p"
    and fl: "1 \<le> filter_length p" and lv: "1 \<le> n_levels p \<or> n_inputs p = n_filters p"
    and cf: "list_all (conforms vars) (weights (construct_ufcnn p) @ biases (construct_ufcnn p))"
  shows "\<exists>out. predict p vars x = Inr out \<and> shape out = [B, T, nat (n_outputs p)] \<and> wf out"
proof -
  define e where "e = feed_env (4 * nat (n_levels p)) x vars"
  have ve: "var_value e = vars" by (simp add: e_def feed_env_def)
  have Cn: "C = nat (n_inputs p)" using C by simp
  have x0: "succeeds B T (nat (n_inputs p)) e (ExpandDims (input_node p) 1)"
    unfolding e_def input_node_def Cn [symmetric] by (rule succeeds_input [OF wx sx C])
  have last: "succeeds B T (nat (n_filters p)) e (last_layer p)"
  proof (cases "nat (n_levels p) = 0")
    case True
    then have "n_inputs p = n_filters p" using lv by simp
    then show ?thesis using x0 True by (simp add: last_layer_def)
  next
    case False
    have "succeeds B T (nat (n_filters p)) e (G_layer p (ExpandDims (input_node p) 1) 0)"
      using False by (intro succeeds_G_layer [OF x0] fl) (simp_all add: ve conforms_all [OF cf])
    then show ?thesis using False by (simp add: last_layer_def)
  qed
  have "succeeds B T (nat (n_outputs p)) e
      (conv (last_layer p) (Read (C_weight p)) (Read (C_bias p)) (filter_length p) 1)"
    by (rule succeeds_conv [OF last _ _ _ _ fl]) (simp_all add: ve conforms_all [OF cf])
  then obtain cv where cv: "eval e
      (conv (last_layer p) (Read (C_weight p)) (Read (C_bias p)) (filter_length p) 1) = Inr cv"
    and s: "shape cv = [B, 1, T, nat (n_outputs p)]" and w: "wf cv"
    by (auto simp: succeeds_def)
  have "predict p vars x = Inr (cv\<lparr>shape := [B, T, nat (n_outputs p)]\<rparr>)"
    unfolding predict_eq e_def [symmetric]
    by (simp only: eval.simps cv and_then_Inr tf_squeeze_1 [OF s]) simp
  moreover have "wf (cv\<lparr>shape := [B, T, nat (n_outputs p)]\<rparr>)"
    using w by (simp add: wf_def s)
  ultimately show ?thesis by simp
qed

theorem output_shape_witness:
  "wf \<lparr>shape = [1, 4, 1], elems = [1, 2, 3, 4 :: int]\<rparr> \<and>
   int 1 = n_inputs example_params \<and> 1 \<le> filter_length example_params \<and>
   1 \<le> n_levels example_params \<and>
   list_all (conforms example_vars)
     (weights (construct_ufcnn example_params) @ biases (construct_ufcnn example_params)) \<and>
   (\<exists>out. predict example_params example_vars \<lparr>shape = [1, 4, 1], elems = [1, 2, 3, 4]\<rparr> =
      Inr out \<and> shape out = [1, 4, nat (n_outputs example_params)] \<and> wf out) \<and>
   nat (n_outputs example_params) = 2"
proof -
  have a: "wf \<lparr>shape = [1, 4, 1], elems = [1, 2, 3, 4 :: int]\<rparr>" by code_simp
  have b: "shape \<lparr>shape = [1, 4, 1], elems = [1, 2, 3, 4 :: int]\<rparr> = [1, 4, 1]" by simp
  have c: "int 1 = n_inputs example_params" by code_simp
  have d: "1 \<le> filter_length example_params" by code_simp
  have e: "1 \<le> n_levels example_params" by code_simp
  have f: "list_all (conforms example_vars)
     (weights (construct_ufcnn example_params) @ biases (construct_ufcnn example_params))"
    by code_simp
  have g: "nat (n_outputs example_params) = 2" by code_simp
  from output_shape [OF a b c d disjI1 [OF e] f] a c d e f g show ?thesis by blast
qed

section \<open>The height of every activation\<close>

text \<open>
  Claim C10. In a run of the network on any fed input and any values of the variables,
  every activation computed before the final squeeze (the input with its added axis,
  every padded tensor, every convolution, sum, ReLU and concatenation, the output of
  the final convolution included) that returns has four axes and height 1; and the
  prediction never fails in the squeeze: it returns, or fails earlier for another
  reason.
\<close>

theorem height_stays_one:
  assumes "x_in (construct_ufcnn p) = Placeholder i s"
  shows "(\<forall>m \<in> set (activations (y_hat (construct_ufcnn p))).
            m \<noteq> y_hat (construct_ufcnn p) \<longrightarrow>
            (\<forall>v. eval (feed_env i x vars) m = Inr v \<longrightarrow>
               length (shape v) = 4 \<and> shape v ! 1 = 1)) \<and>
         predict p vars x \<noteq> Inl SqueezeError"
proof -
  have i: "i = 4 * nat (n_levels p)"
    using assms by (simp add: construct_ufcnn_eq input_node_def)
  show ?thesis
    using heights_final_conv [of p x vars] predict_no_squeeze_error [of p vars x]
    by (auto simp: i construct_ufcnn_eq heights_one_def)
qed

theorem height_stays_one_witness:
  "x_in (construct_ufcnn example_params) = Placeholder 8 [None, None, Some 1] \<and>
   predict example_params example_vars \<lparr>shape = [1, 4, 1], elems = [1, 2, 3, 4]\<rparr> \<noteq>
     Inl SqueezeError \<and>
   predict example_params example_vars \<lparr>shape = [1, 4, 1], elems = [1, 2, 3, 4]\<rparr> =
     Inr \<lparr>shape = [1, 4, 2], elems = [2, 7, 8, 9, 19, 12, 36, 15]\<rparr>"
proof -
  have a: "x_in (construct_ufcnn example_params) = Placeholder 8 [None, None, Some 1]"
    by code_simp
  have b: "predict example_params example_vars \<lparr>shape = [1, 4, 1], elems = [1, 2, 3, 4]\<rparr> =
     Inr \<lparr>shape = [1, 4, 2], elems = [2, 7, 8, 9, 19, 12, 36, 15]\<rparr>"
    by code_simp
  from height_stays_one [OF a, of "\<lparr>shape = [1, 4, 1], elems = [1, 2, 3, 4]\<rparr>" example_vars] a b
  show ?thesis by blast
qed

section \<open>What a call of \<open>conv\<close> computes\<close>

text \<open>
  Claim C5. Let the activation have the shape (batch, height, time, channels), the
  filter the shape (1, filter length, channels, outputs) and the bias one entry per
  output, with a filter length and a dilation of at least 1. Then \<open>conv\<close> is the
  sum of the bias and of a convolution of the padded activation, which is
  \<open>Conv2D\<close> for dilation 1 and \<open>AtrousConv2D\<close> with the dilation as rate
  otherwise; the padded activation has \<open>dilation * (filter_length - 1)\<close> more time
  positions than the activation, zeros at the first
  \<open>dilation * (filter_length - 1)\<close> of them and the activation after these (so
  nothing is added on the right or on another axis); and the result is the causal
  dilated convolution \<open>causal_conv\<close>, in which the bias of the output channel is
  added at every batch, height and time position.
\<close>

theorem conv_pads_left_then_convolves:
  assumes x: "eval e xn = Inr xv" and sx: "shape xv = [B, H, T, C]"
    and w: "eval e wn = Inr wv" and sw: "shape wv = [1, F, C, K]" and F: "int F = flen"
    and b: "eval e bn = Inr bv" and sb: "shape bv = [K]"
    and fl: "1 \<le> flen" and d: "1 \<le> d"
  shows "conv xn wn bn flen d =
           Add (if d = 1 then Conv2D (Pad xn [(0, 0), (0, 0), (d * (flen - 1), 0), (0, 0)]) wn
                else AtrousConv2D (Pad xn [(0, 0), (0, 0), (d * (flen - 1), 0), (0, 0)]) wn d)
             bn \<and>
         eval e (Pad xn [(0, 0), (0, 0), (d * (flen - 1), 0), (0, 0)]) =
           Inr (build [B, H, T + nat (d * (flen - 1)), C]
             (\<lambda>idx. if idx ! 2 < nat (d * (flen - 1)) then 0
                    else elem_at xv [idx ! 0, idx ! 1, idx ! 2 - nat (d * (flen - 1)), idx ! 3])) \<and>
         eval e (conv xn wn bn flen d) = Inr (causal_conv (nat d) xv wv bv) \<and>
         shape (causal_conv (nat d) xv wv bv) = [B, H, T, K]"
proof -
  have "0 \<le> d * (flen - 1)" using fl d by simp
  then have "eval e (Pad xn [(0, 0), (0, 0), (d * (flen - 1), 0), (0, 0)]) =
           Inr (build [B, H, T + nat (d * (flen - 1)), C]
             (\<lambda>idx. if idx ! 2 < nat (d * (flen - 1)) then 0
                    else elem_at xv [idx ! 0, idx ! 1, idx ! 2 - nat (d * (flen - 1)), idx ! 3]))"
    by (simp add: x tf_pad_time [OF sx])
  moreover have "eval e (conv xn wn bn flen d) = Inr (causal_conv (nat d) xv wv bv)"
    using eval_conv [OF x sx w sw b sb F, of d] fl d by simp
  ultimately show ?thesis
    by (simp add: conv_def Let_def sx sw del: eval.simps)
qed

theorem conv_pads_left_then_convolves_witness:
  "eval (feed_env 0 \<lparr>shape = [1, 4, 1], elems = [1, 2, 3, 4]\<rparr> example_vars)
     (ExpandDims (Placeholder 0 [None, None, Some 1]) 1) =
   Inr \<lparr>shape = [1, 1, 4, 1], elems = [1, 2, 3, 4]\<rparr> \<and>
   eval (feed_env 0 \<lparr>shape = [1, 4, 1], elems = [1, 2, 3, 4]\<rparr> example_vars)
     (Read (Variable 9 [1, 2, 1, 2] None)) =
   Inr \<lparr>shape = [1, 2, 1, 2], elems = [1, - 1, 1, 1]\<rparr> \<and>
   eval (feed_env 0 \<lparr>shape = [1, 4, 1], elems = [1, 2, 3, 4]\<rparr> example_vars)
     (Read (Variable 10 [2] None)) =
   Inr \<lparr>shape = [2], elems = [0, 5]\<rparr> \<and>
   eval (feed_env 0 \<lparr>shape = [1, 4, 1], elems = [1, 2, 3, 4]\<rparr> example_vars)
     (conv (ExpandDims (Placeholder 0 [None, None, Some 1]) 1)
        (Read (Variable 9 [1, 2, 1, 2] None)) (Read (Variable 10 [2] None)) 2 2) =
   Inr \<lparr>shape = [1, 1, 4, 2], elems = [1, 6, 2, 7, 4, 7, 6, 7]\<rparr>"
proof -
  let ?e = "feed_env 0 \<lparr>shape = [1, 4, 1], elems = [1, 2, 3, 4]\<rparr> example_vars"
  let ?xv = "\<lparr>shape = [1, 1, 4, 1], elems = [1, 2, 3, 4 :: int]\<rparr>"
  let ?wv = "\<lparr>shape = [1, 2, 1, 2], elems = [1, - 1, 1, 1 :: int]\<rparr>"
  let ?bv = "\<lparr>shape = [2], elems = [0, 5 :: int]\<rparr>"
  have x: "eval ?e (ExpandDims (Placeholder 0 [None, None, Some 1]) 1) = Inr ?xv"
    by code_simp
  have w: "eval ?e (Read (Variable 9 [1, 2, 1, 2] None)) = Inr ?wv"
    by code_simp
  have b: "eval ?e (Read (Variable 10 [2] None)) = Inr ?bv"
    by code_simp
  have c: "causal_conv (nat 2) ?xv ?wv ?bv =
      \<lparr>shape = [1, 1, 4, 2], elems = [1, 6, 2, 7, 4, 7, 6, 7]\<rparr>"
    by code_simp
  note t = conv_pads_left_then_convolves [where B = 1 and H = 1 and T = 4 and C = 1
      and F = 2 and K = 2 and flen = 2 and d = 2, OF x _ w _ _ b]
  have "eval ?e (conv (ExpandDims (Placeholder 0 [None, None, Some 1]) 1)
        (Read (Variable 9 [1, 2, 1, 2] None)) (Read (Variable 10 [2] None)) 2 2) =
      Inr (causal_conv (nat 2) ?xv ?wv ?bv)"
    by (rule t [THEN conjunct2, THEN conjunct2, THEN conjunct1]) simp_all
  then have "eval ?e (conv (ExpandDims (Placeholder 0 [None, None, Some 1]) 1)
        (Read (Variable 9 [1, 2, 1, 2] None)) (Read (Variable 10 [2] None)) 2 2) =
      Inr \<lparr>shape = [1, 1, 4, 2], elems = [1, 6, 2, 7, 4, 7, 6, 7]\<rparr>"
    by (simp only: c)
  with x w b show ?thesis by blast
qed

section \<open>The input channels of the synthesis layers\<close>

text \<open>
  Claim C3. Let the network be built with at least one level. The node \<open>y_hat\<close>
  is the squeezed final convolution of the output of the third loop, which is the
  synthesis layer of level 0; the synthesis layer of every level \<open>l\<close> is part of
  the graph of \<open>y_hat\<close>, and it is the ReLU of a \<open>conv\<close> that reads the entries
  \<open>n_levels + l\<close> of the returned lists \<open>weights\<close> and \<open>biases\<close>. At the
  deepest level \<open>n_levels - 1\<close> it is applied to the analysis output of its level
  and its filter is declared with \<open>n_filters\<close> input channels; at every other
  level it is applied to the concatenation of the synthesis layer of the level below
  with the analysis output of its own level, and its filter is declared with
  \<open>2 * n_filters\<close> input channels. In a run in which the layer returns, the tensor
  it is applied to has that number of channels.
\<close>

theorem synthesis_input_channels:
  assumes lv: "1 \<le> n_levels p" and l: "l < nat (n_levels p)"
    and xin: "x_in (construct_ufcnn p) = Placeholder i s"
  shows "y_hat (construct_ufcnn p) =
           Squeeze (conv (G_layer p (expanded_input p) 0)
             (Read (last (weights (construct_ufcnn p))))
             (Read (last (biases (construct_ufcnn p)))) (filter_length p) 1) [1] \<and>
         fst (synthesis p (analysis p (expanded_input p))) = G_layer p (expanded_input p) 0 \<and>
         G_layer p (expanded_input p) l \<in> set (activations (y_hat (construct_ufcnn p))) \<and>
         G_layer p (expanded_input p) l =
           Relu (conv
             (if int l = n_levels p - 1 then analysis_outputs p ! l
              else Concat 3 [G_layer p (expanded_input p) (Suc l), analysis_outputs p ! l])
             (Read (weights (construct_ufcnn p) ! (nat (n_levels p) + l)))
             (Read (biases (construct_ufcnn p) ! (nat (n_levels p) + l)))
             (filter_length p) (2 * 2 ^ l)) \<and>
         var_shape (weights (construct_ufcnn p) ! (nat (n_levels p) + l)) ! 2 =
           (if int l = n_levels p - 1 then n_filters p else 2 * n_filters p) \<and>
         (\<forall>v. eval (feed_env i x vars) (G_layer p (expanded_input p) l) = Inr v \<longrightarrow>
            (\<exists>u. eval (feed_env i x vars)
                (if int l = n_levels p - 1 then analysis_outputs p ! l
                 else Concat 3 [G_layer p (expanded_input p) (Suc l), analysis_outputs p ! l]) =
                Inr u \<and>
               length (shape u) = 4 \<and>
               int (shape u ! 3) =
                 (if int l = n_levels p - 1 then n_filters p else 2 * n_filters p)))"
proof -
  have i: "i = 4 * nat (n_levels p)"
    using xin by (simp add: construct_ufcnn_eq input_node_def)
  note g = G_layer_input_channels [OF lv l, of "expanded_input p" x vars]
  have mem: "G_layer p (expanded_input p) l \<in> set (activations (y_hat (construct_ufcnn p)))"
  proof -
    have "G_layer p (expanded_input p) l \<in> set (activations (G_layer p (expanded_input p) 0))"
      by (rule G_layer_in_activations [OF l])
    then have "G_layer p (expanded_input p) l \<in> set (activations
        (conv (G_layer p (expanded_input p) 0) (Read (last (weights (construct_ufcnn p))))
           (Read (last (biases (construct_ufcnn p)))) (filter_length p) 1))"
      using activations_conv by blast
    then show ?thesis by (simp add: y_hat_reads_synthesis(1) [OF lv])
  qed
  show ?thesis
    using g mem y_hat_reads_synthesis [OF lv]
    unfolding weights_nth_G [OF l] analysis_outputs_nth [OF l] i
      expanded_input_eq [symmetric]
    by (intro conjI) blast+
qed

theorem synthesis_input_channels_witness:
  "1 \<le> n_levels example_params \<and> 0 < nat (n_levels example_params) \<and>
   1 < nat (n_levels example_params) \<and>
   x_in (construct_ufcnn example_params) = Placeholder 8 [None, None, Some 1] \<and>
   var_shape (weights (construct_ufcnn example_params) ! 2) ! 2 = 2 \<and>
   var_shape (weights (construct_ufcnn example_params) ! 3) ! 2 = 1 \<and>
   G_layer example_params (expanded_input example_params) 0 \<in>
     set (activations (y_hat (construct_ufcnn example_params))) \<and>
   G_layer example_params (expanded_input example_params) 1 \<in>
     set (activations (y_hat (construct_ufcnn example_params))) \<and>
   fst (synthesis example_params (analysis example_params (expanded_input example_params))) =
     G_layer example_params (expanded_input example_params) 0"
proof -
  have a: "1 \<le> n_levels example_params" by (simp add: example_params_def)
  have b0: "0 < nat (n_levels example_params)" by (simp add: example_params_def)
  have b1: "1 < nat (n_levels example_params)" by (simp add: example_params_def)
  have c: "x_in (construct_ufcnn example_params) = Placeholder 8 [None, None, Some 1]"
    by code_simp
  have n: "nat (n_levels example_params) = 2" by (simp add: example_params_def)
  note t0 = synthesis_input_channels [OF a b0 c]
  note t1 = synthesis_input_channels [OF a b1 c]
  have "var_shape (weights (construct_ufcnn example_params) ! 2) ! 2 = 2"
    using t0 [THEN conjunct2, THEN conjunct2, THEN conjunct2, THEN conjunct2, THEN conjunct1]
    by (simp add: n) (simp add: example_params_def)
  moreover have "var_shape (weights (construct_ufcnn example_params) ! 3) ! 2 = 1"
    using t1 [THEN conjunct2, THEN conjunct2, THEN conjunct2, THEN conjunct2, THEN conjunct1]
    by (simp add: n) (simp add: example_params_def)
  moreover note t0 [THEN conjunct2, THEN conjunct2, THEN conjunct1]
    t1 [THEN conjunct2, THEN conjunct2, THEN conjunct1]
    t0 [THEN conjunct2, THEN conjunct1]
  ultimately show ?thesis using a b0 b1 c by blast
qed

section \<open>The mean squared error\<close>




section \<open>The softmax\<close>

text \<open>
  Claim C7 speaks of every tensor of shape (batch_size, n_samples, n_classes). For a
  tensor without classes \<open>softmax\<close> returns nothing (the reshape to
  \<open>(-1, 0)\<close> cannot infer the number of rows and fails), and a sum over no class
  would be 0, not 1.
\<close>

theorem softmax_no_classes_counterexample:
  "wf \<lparr>shape = [1, 1, 0], elems = [] :: real list\<rparr> \<and>
   softmax \<lparr>shape = [1, 1, 0], elems = []\<rparr> = Inl ReshapeError \<and>
   \<not> (\<exists>out. softmax \<lparr>shape = [1, 1, 0], elems = []\<rparr> = Inr out)"
proof -
  have "softmax \<lparr>shape = [1, 1, 0], elems = []\<rparr> = Inl ReshapeError"
    by (rule softmax_no_classes) simp
  then show ?thesis by (simp add: wf_def)
qed

text \<open>
  Claim C7, amended. For every well-formed tensor of finite numbers of shape
  (batch_size, n_samples, n_classes) with at least one class, \<open>softmax\<close> returns a
  tensor of the shape of its argument that has no negative entry and whose entries sum
  to 1 over the classes at every batch and time position, in exact arithmetic. The
  entries of the model are real numbers: in a run on floating-point numbers the sum
  is 1 up to rounding, and a row that holds an infinity or NaN is outside this
  statement.
\<close>

theorem softmax_sums_to_one:
  assumes wx: "wf x" and sx: "shape x = [B, T, K]" and K: "1 \<le> K"
  shows "\<exists>out. softmax x = Inr out \<and> shape out = [B, T, K] \<and>
           (\<forall>b < B. \<forall>t < T.
              (\<forall>k < K. 0 \<le> elem_at out [b, t, k]) \<and> (\<Sum>k < K. elem_at out [b, t, k]) = 1)"
proof -
  obtain out where out: "softmax x = Inr out" "shape out = [B, T, K]"
    and e: "\<And>b t k. b < B \<Longrightarrow> t < T \<Longrightarrow> k < K \<Longrightarrow>
       elem_at out [b, t, k] =
       exp (elem_at x [b, t, k]) / sum_list (map (\<lambda>j. exp (elem_at x [b, t, j])) [0..<K])"
    using softmax_3d_entries [OF wx sx K] by metis
  have "(\<forall>k < K. 0 \<le> elem_at out [b, t, k]) \<and> (\<Sum>k < K. elem_at out [b, t, k]) = 1"
    if bt: "b < B" "t < T" for b t
  proof -
    define S where "S = sum_list (map (\<lambda>j. exp (elem_at x [b, t, j])) [0..<K])"
    have S: "0 < S" unfolding S_def by (rule sum_exp_pos [OF K])
    have ek: "elem_at out [b, t, k] = exp (elem_at x [b, t, k]) / S" if "k < K" for k
      using e [OF bt that] by (simp add: S_def)
    have "(\<Sum>k < K. elem_at out [b, t, k]) = (\<Sum>k < K. exp (elem_at x [b, t, k]) / S)"
      by (rule sum.cong) (simp_all add: ek)
    also have "\<dots> = (\<Sum>k < K. exp (elem_at x [b, t, k])) / S"
      by (simp add: sum_divide_distrib)
    also have "(\<Sum>k < K. exp (elem_at x [b, t, k])) = S"
      by (simp add: S_def interv_sum_list_conv_sum_set_nat atLeast0LessThan)
    finally have "(\<Sum>k < K. elem_at out [b, t, k]) = 1" using S by simp
    moreover have "\<forall>k < K. 0 \<le> elem_at out [b, t, k]"
      using S by (simp add: ek)
    ultimately show ?thesis by simp
  qed
  then show ?thesis using out by simp
qed

theorem softmax_sums_to_one_witness:
  "wf \<lparr>shape = [1, 1, 2], elems = [0, 0 :: real]\<rparr> \<and> (1::nat) \<le> 2 \<and>
   (\<exists>out. softmax \<lparr>shape = [1, 1, 2], elems = [0, 0]\<rparr> = Inr out \<and> shape out = [1, 1, 2] \<and>
      0 \<le> elem_at out [0, 0, 0] \<and> 0 \<le> elem_at out [0, 0, 1] \<and>
      (\<Sum>k < 2. elem_at out [0, 0, k]) = 1)"
proof -
  have a: "wf \<lparr>shape = [1, 1, 2], elems = [0, 0 :: real]\<rparr>" by (simp add: wf_def)
  have b: "shape \<lparr>shape = [1, 1, 2], elems = [0, 0 :: real]\<rparr> = [1, 1, 2]" by simp
  have c: "(1::nat) \<le> 2" by simp
  from softmax_sums_to_one [OF a b c] obtain out where
    o: "softmax \<lparr>shape = [1, 1, 2], elems = [0, 0]\<rparr> = Inr out" "shape out = [1, 1, 2]"
    and p: "\<forall>b < 1. \<forall>t < 1. (\<forall>k < 2. 0 \<le> elem_at out [b, t, k]) \<and>
         (\<Sum>k < 2. elem_at out [b, t, k]) = 1"
    by blast
  from p have "0 \<le> elem_at out [0, 0, 0] \<and> 0 \<le> elem_at out [0, 0, 1] \<and>
      (\<Sum>k < 2. elem_at out [0, 0, k]) = 1"
    by auto
  with a c o show ?thesis by blast
qed

section \<open>The shape returned by the softmax\<close>

text \<open>
  Claim C8 speaks of every input tensor, of all leading axes and of the last axis. The
  code takes the number of classes from axis 2 (\<open>shape[2]\<close>), as its docstring,
  written for tensors of three axes, allows. So for a tensor of two axes it fails; for a
  tensor of four axes it returns a tensor of the shape of its argument, but one
  normalised over runs of \<open>shape[2]\<close> consecutive entries, which are not the last
  axis (below: entries 1/2 where the softmax over the last axis, of size 3, is 1/3);
  and for a tensor of three axes without classes it fails in the first reshape.
\<close>

theorem softmax_other_ranks_counterexample:
  "softmax \<lparr>shape = [2, 3], elems = [0, 0, 0, 0, 0, 0]\<rparr> = Inl SliceError \<and>
   softmax \<lparr>shape = [1, 1, 2, 3], elems = [0, 0, 0, 0, 0, 0]\<rparr> =
     Inr \<lparr>shape = [1, 1, 2, 3], elems = [1 / 2, 1 / 2, 1 / 2, 1 / 2, 1 / 2, 1 / 2]\<rparr> \<and>
   softmax_last_axis \<lparr>shape = [1, 1, 2, 3], elems = [0, 0, 0, 0, 0, 0]\<rparr> [0, 0, 0, 0] = 1 / 3 \<and>
   softmax \<lparr>shape = [1, 1, 0], elems = []\<rparr> = Inl ReshapeError"
proof -
  have a: "softmax \<lparr>shape = [2, 3], elems = [0, 0, 0, 0, 0, 0]\<rparr> = Inl SliceError"
    by (simp add: softmax_def)
  have b: "softmax \<lparr>shape = [1, 1, 2, 3], elems = [0, 0, 0, 0, 0, 0]\<rparr> =
     Inr \<lparr>shape = [1, 1, 2, 3], elems = [1 / 2, 1 / 2, 1 / 2, 1 / 2, 1 / 2, 1 / 2]\<rparr>"
    by (simp add: softmax_def tf_reshape_def nn_softmax_def Let_def build_def indices_def
        elem_at_def upt_rec numeral_nat nth_Cons')
  have c: "softmax_last_axis \<lparr>shape = [1, 1, 2, 3], elems = [0, 0, 0, 0, 0, 0]\<rparr> [0, 0, 0, 0] =
      1 / 3"
    by (simp add: softmax_last_axis_def elem_at_def upt_rec numeral_nat nth_Cons')
  have d: "softmax \<lparr>shape = [1, 1, 0], elems = []\<rparr> = Inl ReshapeError"
    by (rule softmax_no_classes) simp
  from a b c d show ?thesis by blast
qed

text \<open>
  Claim C8, amended. For every well-formed tensor of three axes with at least one
  class, \<open>softmax\<close> flattens the two leading axes into one, applies the softmax
  over the last axis and restores the shape: the first reshape returns the entries
  under the shape (batch_size * n_samples, n_classes), and \<open>softmax\<close> returns a
  well-formed tensor of the shape of its argument whose entries are the softmax over
  the last axis of the argument. Whenever \<open>softmax\<close> returns, for a tensor of any
  number of axes, the result has the shape of the argument (\<open>softmax_shape\<close>).
\<close>

theorem softmax_restores_shape:
  assumes wx: "wf x" and sx: "shape x = [B, T, K]" and K: "1 \<le> K"
  shows "tf_reshape [- 1, int (shape x ! 2)] x = Inr (x\<lparr>shape := [B * T, K]\<rparr>) \<and>
         (\<exists>out. softmax x = Inr out \<and> shape out = shape x \<and> wf out \<and>
            (\<forall>idx. valid_index (shape x) idx \<longrightarrow> elem_at out idx = softmax_last_axis x idx))"
proof -
  have r1: "tf_reshape [- 1, int (shape x ! 2)] x = Inr (x\<lparr>shape := [B * T, K]\<rparr>)"
    using K by (simp add: tf_reshape_def sx Let_def nat_mult_distrib)
  obtain out where out: "softmax x = Inr out" "shape out = [B, T, K]" "wf out"
    and e: "\<And>b t k. b < B \<Longrightarrow> t < T \<Longrightarrow> k < K \<Longrightarrow>
       elem_at out [b, t, k] =
       exp (elem_at x [b, t, k]) / sum_list (map (\<lambda>j. exp (elem_at x [b, t, j])) [0..<K])"
    using softmax_3d_entries [OF assms] by metis
  have "elem_at out idx = softmax_last_axis x idx" if vi: "valid_index (shape x) idx" for idx
  proof -
    obtain b t k where idx: "idx = [b, t, k]" and v: "b < B" "t < T" "k < K"
      using vi sx by auto
    show ?thesis
      by (simp add: idx e [OF v] softmax_last_axis_def sx numeral_2_eq_2)
  qed
  then show ?thesis using r1 out sx by auto
qed

theorem softmax_restores_shape_witness:
  "wf \<lparr>shape = [1, 1, 2], elems = [0, 0 :: real]\<rparr> \<and>
   (\<exists>out. softmax \<lparr>shape = [1, 1, 2], elems = [0, 0]\<rparr> = Inr out \<and> shape out = [1, 1, 2] \<and>
      elem_at out [0, 0, 1] = 1 / 2)"
proof -
  have a: "wf \<lparr>shape = [1, 1, 2], elems = [0, 0 :: real]\<rparr>" by (simp add: wf_def)
  have b: "shape \<lparr>shape = [1, 1, 2], elems = [0, 0 :: real]\<rparr> = [1, 1, 2]" by simp
  have c: "(1::nat) \<le> 2" by simp
  have v: "valid_index (shape \<lparr>shape = [1, 1, 2], elems = [0, 0 :: real]\<rparr>) [0, 0, 1]" by simp
  have s: "softmax_last_axis \<lparr>shape = [1, 1, 2], elems = [0, 0]\<rparr> [0, 0, 1] = 1 / 2"
    by (simp add: softmax_last_axis_def elem_at_def upt_rec numeral_2_eq_2)
  from softmax_restores_shape [OF a b c] obtain out where
    "softmax \<lparr>shape = [1, 1, 2], elems = [0, 0]\<rparr> = Inr out"
    "shape out = shape \<lparr>shape = [1, 1, 2], elems = [0, 0 :: real]\<rparr>"
    "\<forall>idx. valid_index (shape \<lparr>shape = [1, 1, 2], elems = [0, 0 :: real]\<rparr>) idx \<longrightarrow>
       elem_at out idx = softmax_last_axis \<lparr>shape = [1, 1, 2], elems = [0, 0]\<rparr> idx"
    by blast
  then show ?thesis using a v s by (metis b)
qed

end
